theory Spec2Isabelle
  imports Main "HOL-Library.Word" "HOL-Library.Sublist" "HOL-Library.List_Lexorder"
begin

section \<open>Strings and errors\<close>

text \<open>
  The two build scripts work on JavaScript strings. Text whose characters matter beyond
  ASCII (the page text scanned for glyphs) is modelled as its sequence of UTF-16 code
  units, \<open>16 word list\<close>, which is what \<^verbatim>\<open>split('')\<close>, indexing and the
  regular expressions without the \<^verbatim>\<open>u\<close> flag see. Text made of ASCII alone (paths, the
  codepoint specification, the patterns of the fingerprint step) is a \<open>string\<close>.
\<close>

type_synonym jsstring = "16 word list"

datatype error =
    TypeError      \<comment> \<open>a method called on \<^verbatim>\<open>undefined\<close>, or a path function given a non-string\<close>
  | ENOENT         \<comment> \<open>a file that does not exist is read or copied\<close>
  | EIO            \<comment> \<open>the operating system failed a write\<close>

section \<open>Range Compactor: \<^verbatim>\<open>charsToUnicodeArg\<close>\<close>

text \<open>
  \<^verbatim>\<open>ch.codePointAt(0)\<close>: the code point that starts the string. A high surrogate
  followed by a low surrogate is one code point above \<open>0xFFFF\<close>; any other first unit is
  returned as it is; the empty string gives \<^verbatim>\<open>undefined\<close> (\<open>None\<close>).
\<close>

definition codePointAt0 :: "jsstring \<Rightarrow> nat option" where
  "codePointAt0 s =
     (case s of
        [] \<Rightarrow> None
      | hi # rest \<Rightarrow>
          (case rest of
             [] \<Rightarrow> Some (unat hi)
           | lo # _ \<Rightarrow>
               if 0xD800 \<le> hi \<and> hi \<le> 0xDBFF \<and> 0xDC00 \<le> lo \<and> lo \<le> 0xDFFF
               then Some ((unat hi - 0xD800) * 0x400 + (unat lo - 0xDC00) + 0x10000)
               else Some (unat hi)))"

text \<open>
  The loop over the sorted codepoints. \<^verbatim>\<open>start\<close> and \<^verbatim>\<open>prev\<close> are assigned
  together (\<^verbatim>\<open>start = prev = cp\<close>) or \<^verbatim>\<open>prev\<close> alone once \<^verbatim>\<open>start\<close> is set, so
  they are \<^verbatim>\<open>null\<close> together: the pair is one optional value.
\<close>

fun merge_step ::
  "(nat \<times> nat) list \<times> (nat \<times> nat) option \<Rightarrow> nat \<Rightarrow> (nat \<times> nat) list \<times> (nat \<times> nat) option"
where
  "merge_step (ranges, None) cp = (ranges, Some (cp, cp))"
| "merge_step (ranges, Some (start, prev)) cp =
     (if cp = prev + 1 then (ranges, Some (start, cp))
      else (ranges @ [(start, prev)], Some (cp, cp)))"

text \<open>\<^verbatim>\<open>if (start !== null) ranges.push([start, prev])\<close>, after the loop.\<close>

fun finish_ranges :: "(nat \<times> nat) list \<times> (nat \<times> nat) option \<Rightarrow> (nat \<times> nat) list" where
  "finish_ranges (ranges, None) = ranges"
| "finish_ranges (ranges, Some (start, prev)) = ranges @ [(start, prev)]"

definition merge_ranges :: "nat list \<Rightarrow> (nat \<times> nat) list" where
  "merge_ranges codepoints = finish_ranges (foldl merge_step ([], None) codepoints)"

text \<open>\<^verbatim>\<open>cp.toString(16).toUpperCase().padStart(4, '0')\<close>.\<close>

definition hex_digit :: "nat \<Rightarrow> char" where
  "hex_digit d = ''0123456789abcdef'' ! d"

fun toString16 :: "nat \<Rightarrow> string" where
  "toString16 n =
     (if n < 16 then [hex_digit n] else toString16 (n div 16) @ [hex_digit (n mod 16)])"

declare toString16.simps [simp del]

text \<open>\<^verbatim>\<open>toUpperCase\<close> on the ASCII letters; the digits of \<^verbatim>\<open>toString(16)\<close> are ASCII.\<close>

definition upper_char :: "char \<Rightarrow> char" where
  "upper_char c =
     (case map_of (zip ''abcdefghijklmnopqrstuvwxyz'' ''ABCDEFGHIJKLMNOPQRSTUVWXYZ'') c of
        Some u \<Rightarrow> u
      | None \<Rightarrow> c)"

definition toUpperCase :: "string \<Rightarrow> string" where
  "toUpperCase s = map upper_char s"

definition padStart :: "nat \<Rightarrow> char \<Rightarrow> string \<Rightarrow> string" where
  "padStart n c s = replicate (n - length s) c @ s"

definition fmt :: "nat \<Rightarrow> string" where
  "fmt cp = padStart 4 (CHR ''0'') (toUpperCase (toString16 cp))"

definition fmt_range :: "nat \<times> nat \<Rightarrow> string" where
  "fmt_range r =
     (case r of (a, b) \<Rightarrow> if a = b then ''U+'' @ fmt a else ''U+'' @ fmt a @ ''-'' @ fmt b)"

text \<open>\<^verbatim>\<open>Array.prototype.join\<close>.\<close>

fun join :: "'a list \<Rightarrow> 'a list list \<Rightarrow> 'a list" where
  "join sep [] = []"
| "join sep [x] = x"
| "join sep (x # y # ys) = x @ sep @ join sep (y # ys)"

text \<open>
  \<^verbatim>\<open>charsToUnicodeArg(chars)\<close>. An empty string among \<^verbatim>\<open>chars\<close> gives an
  \<^verbatim>\<open>undefined\<close> codepoint, which the sort moves to the end and the loop carries into a
  range; formatting it calls \<^verbatim>\<open>toString\<close> on \<^verbatim>\<open>undefined\<close> and throws.
\<close>

definition charsToUnicodeArg :: "jsstring list \<Rightarrow> error + string" where
  "charsToUnicodeArg chars =
     (case those (map codePointAt0 chars) of
        None \<Rightarrow> Inl TypeError
      | Some codepoints \<Rightarrow>
          Inr (join '','' (map fmt_range (merge_ranges (sort codepoints)))))"

subsection \<open>Reading a codepoint specification back\<close>

text \<open>
  The decoder the round trip is stated against: the syntax the subsetting engine reads.
  The specification is cut at commas; a token is \<^verbatim>\<open>U+\<close> followed by one hexadecimal
  number, or by two joined with \<^verbatim>\<open>-\<close> for a closed interval. The empty specification
  has no token.
\<close>

fun split_at :: "'a \<Rightarrow> 'a list \<Rightarrow> 'a list list" where
  "split_at sep [] = [[]]"
| "split_at sep (c # cs) =
     (if c = sep then [] # split_at sep cs
      else (case split_at sep cs of [] \<Rightarrow> [[c]] | t # ts \<Rightarrow> (c # t) # ts))"

definition tokens_of :: "string \<Rightarrow> string list" where
  "tokens_of arg = (if arg = [] then [] else split_at (CHR '','') arg)"

definition hex_value :: "char \<Rightarrow> nat" where
  "hex_value c =
     (let n = (of_char c :: nat) in
      if 48 \<le> n \<and> n \<le> 57 then n - 48
      else if 65 \<le> n \<and> n \<le> 70 then n - 55
      else if 97 \<le> n \<and> n \<le> 102 then n - 87
      else 0)"

definition parse_hex :: "string \<Rightarrow> nat" where
  "parse_hex s = foldl (\<lambda>acc c. 16 * acc + hex_value c) 0 s"

definition decode_token :: "string \<Rightarrow> nat set" where
  "decode_token t =
     (case split_at (CHR ''-'') (drop 2 t) of
        [a] \<Rightarrow> {parse_hex a}
      | [a, b] \<Rightarrow> {parse_hex a .. parse_hex b}
      | _ \<Rightarrow> {})"

definition cover :: "(nat \<times> nat) list \<Rightarrow> nat set" where
  "cover ivs = \<Union> (set (map (\<lambda>iv. {fst iv .. snd iv}) ivs))"

definition decode_unicodes :: "string \<Rightarrow> nat set" where
  "decode_unicodes arg = \<Union> (set (map decode_token (tokens_of arg)))"

section \<open>Global replacement: \<^verbatim>\<open>String.prototype.replace\<close> with a \<^verbatim>\<open>g\<close> pattern\<close>

text \<open>
  A pattern is modelled by its matcher: \<open>M s\<close> is the length of the match that starts at
  the head of \<open>s\<close>, or \<open>None\<close>. \<open>gsub M R s\<close> scans \<open>s\<close> from the left; where the pattern
  matches, the match is replaced by \<open>R\<close> and the scan goes on behind it; elsewhere the
  character is kept. (After an empty match the scan moves on by one character; no pattern
  of the scripts matches the empty string. No replacement string of the scripts holds a
  \<^verbatim>\<open>$\<close>, so replacement strings are literal.)
\<close>

fun gsub :: "('a list \<Rightarrow> nat option) \<Rightarrow> 'a list \<Rightarrow> 'a list \<Rightarrow> 'a list" where
  "gsub M R [] = (case M [] of None \<Rightarrow> [] | Some n \<Rightarrow> R)"
| "gsub M R (c # cs) =
     (case M (c # cs) of
        None \<Rightarrow> c # gsub M R cs
      | Some n \<Rightarrow> if n = 0 then R @ c # gsub M R cs else R @ gsub M R (drop (n - 1) cs))"

text \<open>A literal pattern such as \<^verbatim>\<open>/&amp;/g\<close>, or the string given to \<^verbatim>\<open>replaceAll\<close>.\<close>

definition match_lit :: "'a list \<Rightarrow> 'a list \<Rightarrow> nat option" where
  "match_lit pat s = (if pat \<noteq> [] \<and> prefix pat s then Some (length pat) else None)"

section \<open>Glyph Extractor: \<^verbatim>\<open>extractCharsFromHTML\<close>\<close>

definition ascii :: "string \<Rightarrow> jsstring" where
  "ascii s = map (\<lambda>c. of_nat (of_char c)) s"

text \<open>
  The \<^verbatim>\<open>i\<close> flag without the \<^verbatim>\<open>u\<close> flag compares the upper-case forms of single code
  units, and never lets a unit from \<open>128\<close> on equal an ASCII one. For the ASCII patterns of
  the script this is equality after folding \<^verbatim>\<open>a\<close>..\<^verbatim>\<open>z\<close> to \<^verbatim>\<open>A\<close>..\<^verbatim>\<open>Z\<close>.
\<close>

definition canon :: "16 word \<Rightarrow> 16 word" where
  "canon u = (if 0x61 \<le> u \<and> u \<le> 0x7A then u - 0x20 else u)"

definition prefix_ci :: "jsstring \<Rightarrow> jsstring \<Rightarrow> bool" where
  "prefix_ci pat s = prefix (map canon pat) (map canon s)"

fun find_ci :: "jsstring \<Rightarrow> jsstring \<Rightarrow> nat option" where
  "find_ci pat [] = (if pat = [] then Some 0 else None)"
| "find_ci pat (c # cs) =
     (if prefix_ci pat (c # cs) then Some 0 else map_option Suc (find_ci pat cs))"

text \<open>
  \<^verbatim>\<open>/<script[\s\S]*?<\/script>/gi\<close> and \<^verbatim>\<open>/<style[\s\S]*?<\/style>/gi\<close>: the opening
  text, then as few units as possible up to the first closing text behind it.
\<close>

definition match_element :: "string \<Rightarrow> string \<Rightarrow> jsstring \<Rightarrow> nat option" where
  "match_element opening closing s =
     (if prefix_ci (ascii opening) s
      then (case find_ci (ascii closing) (drop (length opening) s) of
              None \<Rightarrow> None
            | Some k \<Rightarrow> Some (length opening + k + length closing))
      else None)"

text \<open>\<^verbatim>\<open>/<[^>]*>/g\<close>: a \<^verbatim>\<open><\<close>, every unit up to the next \<^verbatim>\<open>>\<close>, and that \<^verbatim>\<open>>\<close>.\<close>

definition match_tag :: "jsstring \<Rightarrow> nat option" where
  "match_tag s =
     (case s of
        [] \<Rightarrow> None
      | c # cs \<Rightarrow>
          if c = 0x3C
          then (let body = takeWhile (\<lambda>u. u \<noteq> 0x3E) cs
                in if length body < length cs then Some (length body + 2) else None)
          else None)"

definition strip_script :: "jsstring \<Rightarrow> jsstring" where
  "strip_script = gsub (match_element ''<script'' ''</script>'') []"

definition strip_style :: "jsstring \<Rightarrow> jsstring" where
  "strip_style = gsub (match_element ''<style'' ''</style>'') []"

definition strip_tags :: "jsstring \<Rightarrow> jsstring" where
  "strip_tags = gsub match_tag (ascii '' '')"

definition decode_entities :: "jsstring \<Rightarrow> jsstring" where
  "decode_entities t =
     gsub (match_lit (ascii ''&#39;'')) (ascii [CHR 0x27])
       (gsub (match_lit (ascii ''&quot;'')) (ascii [CHR 0x22])
          (gsub (match_lit (ascii ''&gt;'')) (ascii ''>'')
             (gsub (match_lit (ascii ''&lt;'')) (ascii ''<'')
                (gsub (match_lit (ascii ''&amp;'')) (ascii ''&'')
                   (gsub (match_lit (ascii ''&nbsp;'')) (ascii '' '') t)))))"

text \<open>The variable \<^verbatim>\<open>text\<close>: the chain of replacements, in the order of the source.\<close>

definition html_text :: "jsstring \<Rightarrow> jsstring" where
  "html_text html = decode_entities (strip_tags (strip_style (strip_script html)))"

text \<open>
  \<^verbatim>\<open>base\<close> and \<^verbatim>\<open>extras\<close>. The punctuation line of \<^verbatim>\<open>base\<close> holds three characters
  beyond ASCII: U+2013, U+2014 and U+2011.
\<close>

definition base :: jsstring where
  "base =
     ascii ([CHR 0x20, CHR 0x0A, CHR 0x09] @ ''0123456789'' @ ''ABCDEFGHIJKLMNOPQRSTUVWXYZ''
            @ ''abcdefghijklmnopqrstuvwxyz'' @ ''.,;:!?'' @ [CHR 0x22, CHR 0x27] @ ''()[]{}<>-'')
     @ [0x2013, 0x2014, 0x2011]
     @ ascii (''/+*&%#@^$=_'' @ [CHR 0x60] @ ''~|'' @ [CHR 0x5C])"

definition extras :: jsstring where
  "extras = [0x00A9, 0x2018, 0x2019, 0x2013, 0x2014, 0x2011]"

text \<open>
  \<^verbatim>\<open>new Set(xs)\<close> followed by \<^verbatim>\<open>Array.from\<close>: the distinct elements in the order of
  their first occurrence.
\<close>

definition set_elements :: "'a list \<Rightarrow> 'a list" where
  "set_elements xs = rev (remdups (rev xs))"

text \<open>
  \<^verbatim>\<open>extractCharsFromHTML(file)\<close>. \<open>readText\<close> stands for
  \<^verbatim>\<open>fs.readFileSync(file, 'utf8')\<close>: the decoded text of a file, \<open>None\<close> when there is no
  such file. \<^verbatim>\<open>split('')\<close> cuts the text into its code units, each a string of length one;
  \<^verbatim>\<open>sort()\<close> orders strings by their code units.
\<close>

definition extractCharsFromHTML :: "(string \<Rightarrow> jsstring option) \<Rightarrow> string \<Rightarrow> error + jsstring list" where
  "extractCharsFromHTML readText file =
     (case readText file of
        None \<Rightarrow> Inl ENOENT
      | Some html \<Rightarrow>
          Inr (sort (set_elements (map (\<lambda>u. [u]) (html_text html @ base @ extras)))))"

text \<open>
  The characters of a text as its reader sees them: a surrogate pair is one character
  (what \<^verbatim>\<open>Array.from(text)\<close> and \<^verbatim>\<open>for...of\<close> yield). The data model's GlyphSet is a set of
  such characters.
\<close>

fun characters :: "jsstring \<Rightarrow> jsstring list" where
  "characters [] = []"
| "characters [u] = [[u]]"
| "characters (hi # lo # us) =
     (if 0xD800 \<le> hi \<and> hi \<le> 0xDBFF \<and> 0xDC00 \<le> lo \<and> lo \<le> 0xDFFF
      then [hi, lo] # characters us
      else [hi] # characters (lo # us))"

section \<open>Files, paths and the process\<close>

text \<open>
  The file system is a map from paths to the bytes of the regular files; both scripts
  touch regular files only. \<^verbatim>\<open>stdout\<close> and \<^verbatim>\<open>stderr\<close> are the lines written so far.
\<close>

type_synonym path = string
type_synonym bytes = string

record world =
  files :: "path \<rightharpoonup> bytes"
  stdout :: "string list"
  stderr :: "string list"

definition existsSync :: "world \<Rightarrow> path \<Rightarrow> bool" where
  "existsSync w p = (files w p \<noteq> None)"

definition readFileSync :: "world \<Rightarrow> path \<Rightarrow> error + bytes" where
  "readFileSync w p = (case files w p of None \<Rightarrow> Inl ENOENT | Some b \<Rightarrow> Inr b)"

definition copyFileSync :: "world \<Rightarrow> path \<Rightarrow> path \<Rightarrow> world \<times> (error + unit)" where
  "copyFileSync w src dst =
     (case files w src of
        None \<Rightarrow> (w, Inl ENOENT)
      | Some b \<Rightarrow> (w\<lparr>files := (files w)(dst \<mapsto> b)\<rparr>, Inr ()))"

definition renameSync :: "world \<Rightarrow> path \<Rightarrow> path \<Rightarrow> world \<times> (error + unit)" where
  "renameSync w old new =
     (case files w old of
        None \<Rightarrow> (w, Inl ENOENT)
      | Some b \<Rightarrow> (w\<lparr>files := (files w)(old := None, new \<mapsto> b)\<rparr>, Inr ()))"

text \<open>
  \<^verbatim>\<open>fs.writeFileSync\<close> opens the file for writing, which empties it, and then writes the
  data. The operating system can fail it; what it does to the one file the fingerprint
  step writes is an input of the model: the write succeeds, it fails before the file is
  opened (the file is left as it was), or it fails after the file was emptied and a
  number of bytes were written.
\<close>

datatype write_outcome = WriteOk | FailsBeforeOpen | FailsAfterBytes nat

definition writeFileSync :: "write_outcome \<Rightarrow> world \<Rightarrow> path \<Rightarrow> bytes \<Rightarrow> world \<times> (error + unit)" where
  "writeFileSync outcome w p data =
     (case outcome of
        WriteOk \<Rightarrow> (w\<lparr>files := (files w)(p \<mapsto> data)\<rparr>, Inr ())
      | FailsBeforeOpen \<Rightarrow> (w, Inl EIO)
      | FailsAfterBytes k \<Rightarrow> (w\<lparr>files := (files w)(p \<mapsto> take k data)\<rparr>, Inl EIO))"

text \<open>
  Node's \<^verbatim>\<open>path\<close> functions on POSIX paths, for the paths the scripts build: no trailing
  slash, no \<^verbatim>\<open>.\<close> or \<^verbatim>\<open>..\<close> segment, no doubled slash.
\<close>

definition basename1 :: "path \<Rightarrow> string" where
  "basename1 p = rev (takeWhile (\<lambda>c. c \<noteq> CHR ''/'') (rev p))"

definition dirname :: "path \<Rightarrow> path" where
  "dirname p =
     (if CHR ''/'' \<notin> set p then ''.''
      else (let d = rev (drop 1 (dropWhile (\<lambda>c. c \<noteq> CHR ''/'') (rev p)))
            in if d = [] then ''/'' else d))"

definition extname :: "path \<Rightarrow> string" where
  "extname p =
     (let b = basename1 p;
          e = rev (takeWhile (\<lambda>c. c \<noteq> CHR ''.'') (rev b))
      in if CHR ''.'' \<notin> set b \<or> length e + 1 = length b \<or> b = ''..'' then []
         else CHR ''.'' # e)"

definition basename :: "path \<Rightarrow> string \<Rightarrow> string" where
  "basename p ext =
     (let b = basename1 p
      in if ext \<noteq> [] \<and> suffix ext b \<and> ext \<noteq> b then take (length b - length ext) b else b)"

definition path_join :: "path \<Rightarrow> string \<Rightarrow> path" where
  "path_join dir name =
     (if dir = ''.'' \<or> dir = [] then name
      else if last dir = CHR ''/'' then dir @ name
      else dir @ ''/'' @ name)"

definition segments :: "path \<Rightarrow> string list" where
  "segments p = filter (\<lambda>s. s \<noteq> []) (split_at (CHR ''/'') p)"

fun common_prefix_length :: "'a list \<Rightarrow> 'a list \<Rightarrow> nat" where
  "common_prefix_length (x # xs) (y # ys) = (if x = y then Suc (common_prefix_length xs ys) else 0)"
| "common_prefix_length _ _ = 0"

definition path_relative :: "path \<Rightarrow> path \<Rightarrow> string" where
  "path_relative from to =
     (let f = segments from; t = segments to; n = common_prefix_length f t
      in join ''/'' (replicate (length f - n) ''..'' @ drop n t))"

section \<open>Font Subsetter: \<^verbatim>\<open>subsetOneFont\<close>\<close>

text \<open>
  \<^verbatim>\<open>spawnSync\<close> runs the external engine: it is a parameter, a function from the command,
  its arguments and the file system to the exit status (\<open>None\<close> for \<^verbatim>\<open>null\<close>: the process
  was not started or was killed) and the file system the process leaves.
\<close>

type_synonym spawn = "string \<Rightarrow> string list \<Rightarrow> (path \<rightharpoonup> bytes) \<Rightarrow> int option \<times> (path \<rightharpoonup> bytes)"

definition subset_log :: "world \<Rightarrow> string \<Rightarrow> world" where
  "subset_log w msg = w\<lparr>stdout := stdout w @ [''[subset-fonts] '' @ msg]\<rparr>"

definition subset_args :: "path \<Rightarrow> path \<Rightarrow> string \<Rightarrow> string list" where
  "subset_args srcPath outTmp unicodesArg =
     [''-m'', ''fontTools.subset'', srcPath, ''--output-file='' @ outTmp, ''--flavor=woff2'',
      ''--layout-features=*'', ''--no-hinting'', ''--glyph-names'', ''--unicodes='' @ unicodesArg]"

definition subsetOneFont :: "spawn \<Rightarrow> path \<Rightarrow> string \<Rightarrow> world \<Rightarrow> world \<times> (error + bool)" where
  "subsetOneFont spawnSync srcPath unicodesArg w =
     (let outTmp = srcPath @ ''.subset.tmp.woff2'';
          res = spawnSync ''python3'' (subset_args srcPath outTmp unicodesArg) (files w);
          w1 = w\<lparr>files := snd res\<rparr>
      in if fst res \<noteq> Some 0 \<or> \<not> existsSync w1 outTmp
         then (subset_log w1 (''WARN: subsetting failed for '' @ basename1 srcPath
                              @ ''; keeping original file''), Inr False)
         else (case renameSync w1 outTmp srcPath of
                 (w2, Inl err) \<Rightarrow> (w2, Inl err)
               | (w2, Inr _) \<Rightarrow> (w2, Inr True)))"

section \<open>Fingerprint step: \<^verbatim>\<open>fingerprint-assets.js\<close>\<close>

text \<open>
  What the step reads from its process: the working directory, the environment variable,
  the SHA-256 of \<^verbatim>\<open>node:crypto\<close> as a function to the hexadecimal digest, what the
  operating system does to the write of \<^verbatim>\<open>index.html\<close>, and the text Node gives an
  exception of the run as its \<^verbatim>\<open>message\<close> (for a missing file
  \<^verbatim>\<open>ENOENT: no such file or directory, open '...'\<close> with the path, for the call of
  \<^verbatim>\<open>path.relative\<close> on \<^verbatim>\<open>undefined\<close> the text of \<^verbatim>\<open>ERR_INVALID_ARG_TYPE\<close>). The text is
  left open: no property below depends on it.
\<close>

record env =
  ROOT :: path
  SKIP_FINGERPRINT :: "string option"
  sha256_hex :: "bytes \<Rightarrow> string"
  index_write :: write_outcome
  err_message :: "error \<Rightarrow> string"

definition INDEX :: "env \<Rightarrow> path" where
  "INDEX e = path_join (ROOT e) ''index.html''"

definition cssFile :: "env \<Rightarrow> path" where
  "cssFile e = path_join (path_join (ROOT e) ''assets'') ''tailwind.css''"

definition fontRegular :: "env \<Rightarrow> path" where
  "fontRegular e = path_join (path_join (ROOT e) ''fonts'') ''Cormorant Variable Font.woff2''"

definition fontItalic :: "env \<Rightarrow> path" where
  "fontItalic e = path_join (path_join (ROOT e) ''fonts'') ''Cormorant Italic Variable Font.woff2''"

definition log :: "world \<Rightarrow> string \<Rightarrow> world" where
  "log w msg = w\<lparr>stdout := stdout w @ [''[fingerprint] '' @ msg]\<rparr>"

definition hashFile :: "env \<Rightarrow> world \<Rightarrow> path \<Rightarrow> error + string" where
  "hashFile e w file =
     (case readFileSync w file of
        Inl err \<Rightarrow> Inl err
      | Inr buf \<Rightarrow> Inr (take 10 (sha256_hex e buf)))"

definition ensureCopyWithHash :: "world \<Rightarrow> path \<Rightarrow> string \<Rightarrow> world \<times> (error + path)" where
  "ensureCopyWithHash w file hash =
     (let dir = dirname file;
          ext = extname file;
          base = basename file ext;
          hashed = path_join dir (base @ ''.'' @ hash @ ext)
      in if \<not> existsSync w hashed
         then (case copyFileSync w file hashed of
                 (w1, Inl err) \<Rightarrow> (w1, Inl err)
               | (w1, Inr _) \<Rightarrow> (w1, Inr hashed))
         else (w, Inr hashed))"

definition replaceAll :: "string \<Rightarrow> (string \<Rightarrow> nat option) \<Rightarrow> string \<Rightarrow> string" where
  "replaceAll content pattern replacement = gsub pattern replacement content"

text \<open>
  The three patterns have one shape, such as
  \<^verbatim>\<open>/\/assets\/tailwind(?:\.[a-f0-9]{8,12})?\.css/g\<close>: the path up to the extension, then
  optionally a dot and 8 to 12 lowercase hexadecimal digits, then the extension. The
  group is tried first, with the most digits first; without it the extension must follow
  the path at once.
\<close>

definition is_hex_lower :: "char \<Rightarrow> bool" where
  "is_hex_lower c = (c \<in> set ''abcdef0123456789'')"

definition match_hash_group :: "string \<Rightarrow> string \<Rightarrow> nat option" where
  "match_hash_group ext r =
     (case r of
        [] \<Rightarrow> None
      | c # r' \<Rightarrow>
          if c = CHR ''.''
          then find (\<lambda>k. k \<le> length r' \<and> list_all is_hex_lower (take k r') \<and> prefix ext (drop k r'))
                 [12, 11, 10, 9, 8]
          else None)"

definition match_ref :: "string \<Rightarrow> string \<Rightarrow> string \<Rightarrow> nat option" where
  "match_ref pre ext s =
     (if prefix pre s
      then (let r = drop (length pre) s
            in case match_hash_group ext r of
                 Some k \<Rightarrow> Some (length pre + 1 + k + length ext)
               | None \<Rightarrow> if prefix ext r then Some (length pre + length ext) else None)
      else None)"

text \<open>\<^verbatim>\<open>includes\<close>, \<^verbatim>\<open>split\<close> with a string separator, and the string \<^verbatim>\<open>replaceAll\<close>.\<close>

fun str_includes :: "'a list \<Rightarrow> 'a list \<Rightarrow> bool" where
  "str_includes [] pat = (pat = [])"
| "str_includes (c # cs) pat = (prefix pat (c # cs) \<or> str_includes cs pat)"

fun split_acc :: "'a list \<Rightarrow> 'a list \<Rightarrow> 'a list \<Rightarrow> 'a list list" where
  "split_acc sep acc [] = [rev acc]"
| "split_acc sep acc (c # cs) =
     (if sep \<noteq> [] \<and> prefix sep (c # cs)
      then rev acc # split_acc sep [] (drop (length sep - 1) cs)
      else split_acc sep (c # acc) cs)"

definition split_str :: "'a list \<Rightarrow> 'a list \<Rightarrow> 'a list list" where
  "split_str sep s = split_acc sep [] s"

definition str_replaceAll :: "string \<Rightarrow> string \<Rightarrow> string \<Rightarrow> string" where
  "str_replaceAll s pat rep = gsub (match_lit pat) rep s"

definition escape_path :: "string \<Rightarrow> string" where
  "escape_path s =
     str_replaceAll (str_replaceAll s ''/'' [CHR 0x5C, CHR ''/'']) ''.'' [CHR 0x5C, CHR ''.'']"

text \<open>
  \<^verbatim>\<open>toWeb(p)\<close>. Its argument is \<^verbatim>\<open>outputs[f]\<close>, which is \<^verbatim>\<open>undefined\<close> for a file that
  was not found; \<^verbatim>\<open>path.relative\<close> throws a \<^verbatim>\<open>TypeError\<close> on it.
\<close>

definition toWeb :: "env \<Rightarrow> path option \<Rightarrow> error + string" where
  "toWeb e p =
     (case p of
        None \<Rightarrow> Inl TypeError
      | Some q \<Rightarrow> Inr (CHR ''/'' # join ''/'' (split_at (CHR ''/'') (path_relative (ROOT e) q))))"

text \<open>
  The block of one font (the blocks of the two fonts differ in the path of the pattern
  only): the pattern's matches are replaced, then an escaped copy of the new path.
\<close>

definition rewrite_font :: "env \<Rightarrow> string \<Rightarrow> path option \<Rightarrow> string \<Rightarrow> error + string" where
  "rewrite_font e pre out html =
     (case out of
        None \<Rightarrow> Inr html
      | Some p \<Rightarrow>
          (case toWeb e (Some p) of
             Inl err \<Rightarrow> Inl err
           | Inr hashed \<Rightarrow>
               (let html1 = replaceAll html (match_ref pre ''.woff2'') hashed;
                    escaped = escape_path hashed
                in Inr (if str_includes html1 escaped then join hashed (split_str escaped html1)
                        else html1))))"

text \<open>Lines 69 to 109 of \<^verbatim>\<open>main\<close>: from the text read to the text written.\<close>

definition rewrite_references :: "env \<Rightarrow> (path \<rightharpoonup> path) \<Rightarrow> string \<Rightarrow> error + string" where
  "rewrite_references e outputs html =
     (case toWeb e (outputs (cssFile e)) of
        Inl err \<Rightarrow> Inl err
      | Inr cssHashed \<Rightarrow>
          (let html1 = (if outputs (cssFile e) \<noteq> None
                        then replaceAll html (match_ref ''/assets/tailwind'' ''.css'') cssHashed
                        else html)
           in case rewrite_font e ''/fonts/Cormorant Variable Font'' (outputs (fontRegular e)) html1 of
                Inl err \<Rightarrow> Inl err
              | Inr html2 \<Rightarrow>
                  rewrite_font e ''/fonts/Cormorant Italic Variable Font'' (outputs (fontItalic e)) html2))"

text \<open>The loop that produces the hashed copies and fills \<^verbatim>\<open>outputs\<close>.\<close>

fun produce_copies ::
  "env \<Rightarrow> path list \<Rightarrow> world \<Rightarrow> (path \<rightharpoonup> path) \<Rightarrow> world \<times> (error + (path \<rightharpoonup> path))"
where
  "produce_copies e [] w outputs = (w, Inr outputs)"
| "produce_copies e (f # fs) w outputs =
     (case hashFile e w f of
        Inl err \<Rightarrow> (w, Inl err)
      | Inr h \<Rightarrow>
          (case ensureCopyWithHash w f h of
             (w1, Inl err) \<Rightarrow> (w1, Inl err)
           | (w1, Inr hashedPath) \<Rightarrow>
               produce_copies e fs
                 (log w1 (basename1 f @ '' -> '' @ basename1 hashedPath))
                 (outputs(f \<mapsto> hashedPath))))"

text \<open>The body of the \<^verbatim>\<open>try\<close> block: the world it leaves, and the exception if one is thrown.\<close>

definition main_body :: "env \<Rightarrow> world \<Rightarrow> world \<times> (error + unit)" where
  "main_body e w =
     (if SKIP_FINGERPRINT e = Some ''1'' then (log w ''SKIP_FINGERPRINT=1 set; skipping'', Inr ())
      else (let found = filter (existsSync w) [cssFile e, fontRegular e, fontItalic e]
            in if length found = 0 then (log w ''No assets found to fingerprint. Skipping.'', Inr ())
               else (case produce_copies e found w Map.empty of
                       (w1, Inl err) \<Rightarrow> (w1, Inl err)
                     | (w1, Inr outputs) \<Rightarrow>
                         (case readFileSync w1 (INDEX e) of
                            Inl err \<Rightarrow> (w1, Inl err)
                          | Inr html \<Rightarrow>
                              (case rewrite_references e outputs html of
                                 Inl err \<Rightarrow> (w1, Inl err)
                               | Inr html' \<Rightarrow>
                                   (case writeFileSync (index_write e) w1 (INDEX e) html' of
                                      (w2, Inl err) \<Rightarrow> (w2, Inl err)
                                    | (w2, Inr _) \<Rightarrow>
                                        (log w2 ''Rewrote asset URLs in index.html'', Inr ())))))))"

text \<open>
  \<^verbatim>\<open>main\<close>: the \<^verbatim>\<open>catch\<close> turns every exception of the body into a line on
  \<^verbatim>\<open>stderr\<close>, \<^verbatim>\<open>console.error('[fingerprint] WARN:', err.message || err)\<close>, and returns. The script calls \<^verbatim>\<open>main()\<close> and ends; its exit status is \<open>1\<close>
  when an exception leaves \<^verbatim>\<open>main\<close> and \<open>0\<close> otherwise.
\<close>

definition main :: "env \<Rightarrow> world \<Rightarrow> world \<times> (error + unit)" where
  "main e w =
     (case main_body e w of
        (w1, Inl err) \<Rightarrow>
          (w1\<lparr>stderr := stderr w1 @ [''[fingerprint] WARN: '' @ err_message e err]\<rparr>, Inr ())
      | (w1, Inr _) \<Rightarrow> (w1, Inr ()))"

definition fingerprint_assets :: "env \<Rightarrow> world \<Rightarrow> world \<times> nat" where
  "fingerprint_assets e w = (case main e w of (w1, Inl _) \<Rightarrow> (w1, 1) | (w1, Inr _) \<Rightarrow> (w1, 0))"

text \<open>The path \<^verbatim>\<open>ensureCopyWithHash\<close> computes for the hashed copy.\<close>

definition hashed_path :: "path \<Rightarrow> string \<Rightarrow> path" where
  "hashed_path file hash =
     path_join (dirname file) (basename file (extname file) @ ''.'' @ hash @ extname file)"

text \<open>The digest \<^verbatim>\<open>hashFile\<close> returns for a file with the bytes \<open>buf\<close>.\<close>

definition digest :: "env \<Rightarrow> bytes \<Rightarrow> string" where
  "digest e buf = take 10 (sha256_hex e buf)"

text \<open>The working directory with its closing slash, as the paths below it start.\<close>

definition root_slash :: "env \<Rightarrow> path" where
  "root_slash e = (if last (ROOT e) = CHR ''/'' then ROOT e else ROOT e @ ''/'')"

section \<open>Example inputs\<close>

text \<open>
  A site in \<^verbatim>\<open>/site\<close>, for the closed examples below. Its digest function is constant
  (64 times \<^verbatim>\<open>a\<close>), so every digest is \<^verbatim>\<open>aaaaaaaaaa\<close>.
\<close>

definition site_env :: "write_outcome \<Rightarrow> env" where
  "site_env outcome =
     \<lparr>ROOT = ''/site'', SKIP_FINGERPRINT = None,
      sha256_hex = (\<lambda>buf. replicate 64 (CHR ''a'')), index_write = outcome,
      err_message = (\<lambda>err. ''exception'')\<rparr>"

definition site_world :: "(path \<times> bytes) list \<Rightarrow> world" where
  "site_world fs = \<lparr>files = map_of fs, stdout = [], stderr = []\<rparr>"

text \<open>
  The forms of a reference a pattern is written for: the path with its extension, and the
  path, a dot, 8 to 12 lowercase hexadecimal digits, and the extension.
\<close>

definition ref_forms :: "string \<Rightarrow> string \<Rightarrow> string set" where
  "ref_forms pre ext =
     {pre @ ext} \<union> {pre @ ''.'' @ hx @ ext | hx. list_all is_hex_lower hx \<and> 8 \<le> length hx \<and> length hx \<le> 12}"

text \<open>
  Two properties of a text, for the statements about the rewriting: every match of a
  pattern in the text is the word \<open>R\<close>, and the word \<open>m\<close> occurs in the text.
\<close>

definition matches_only :: "('a list \<Rightarrow> nat option) \<Rightarrow> 'a list \<Rightarrow> 'a list \<Rightarrow> bool" where
  "matches_only M R t \<longleftrightarrow> (\<forall>u s n. t = u @ s \<longrightarrow> M s = Some n \<longrightarrow> take n s = R)"

definition occurs_in :: "'a list \<Rightarrow> 'a list \<Rightarrow> bool" where
  "occurs_in m t \<longleftrightarrow> (\<exists>u v. t = u @ m @ v)"

text \<open>The three patterns of \<^verbatim>\<open>main\<close>: the path before the optional digest, and the extension.\<close>

definition patterns :: "(string \<times> string) list" where
  "patterns = [(''/assets/tailwind'', ''.css''),
               (''/fonts/Cormorant Variable Font'', ''.woff2''),
               (''/fonts/Cormorant Italic Variable Font'', ''.woff2'')]"

text \<open>
  The files the body leaves, from the files the copy loop left and its \<^verbatim>\<open>outputs\<close>: the
  read of \<^verbatim>\<open>index.html\<close>, the rewriting and the write.
\<close>

definition files_after_rewrite :: "env \<Rightarrow> (path \<rightharpoonup> path) \<Rightarrow> (path \<rightharpoonup> bytes) \<Rightarrow> (path \<rightharpoonup> bytes)" where
  "files_after_rewrite e outputs fs =
     (case fs (INDEX e) of
        None \<Rightarrow> fs
      | Some html \<Rightarrow>
          (case rewrite_references e outputs html of
             Inl err \<Rightarrow> fs
           | Inr html' \<Rightarrow>
               (case index_write e of
                  WriteOk \<Rightarrow> fs(INDEX e \<mapsto> html')
                | FailsBeforeOpen \<Rightarrow> fs
                | FailsAfterBytes k \<Rightarrow> fs(INDEX e \<mapsto> take k html'))))"


section \<open>Properties of the Range Compactor\<close>

lemma split_at_nonempty: "split_at sep s \<noteq> []"
  by (induction s) (auto split: list.splits)

lemma cover_simps [simp]: "cover [] = {}" "cover (iv # ivs) = {fst iv..snd iv} \<union> cover ivs"
  "cover (xs @ ys) = cover xs \<union> cover ys"
  by (auto simp: cover_def)

lemma parse_hex_snoc: "parse_hex (s @ [c]) = 16 * parse_hex s + hex_value c"
  by (simp add: parse_hex_def)

lemma upt16: "[0..<16] = [0,1,2,3,4,5,6,7,8,9,10,11,12,13,14,15::nat]"
  by (simp add: upt_rec)

lemma upper_digits: "map upper_char ''0123456789abcdef'' = ''0123456789ABCDEF''"
  by (simp add: upper_char_def)

lemma value_digits: "map hex_value ''0123456789ABCDEF'' = [0..<16]"
  unfolding upt16 by (simp add: hex_value_def)

lemma hex_digit_upper:
  assumes "d < 16"
  shows "upper_char (hex_digit d) = ''0123456789ABCDEF'' ! d"
    and "hex_value (upper_char (hex_digit d)) = d"
    and "upper_char (hex_digit d) \<in> set ''0123456789ABCDEF''"
proof -
  have "upper_char (hex_digit d) = map upper_char ''0123456789abcdef'' ! d"
    unfolding hex_digit_def using assms by (subst nth_map) simp_all
  then show a: "upper_char (hex_digit d) = ''0123456789ABCDEF'' ! d"
    unfolding upper_digits .
  have "hex_value (''0123456789ABCDEF'' ! d) = map hex_value ''0123456789ABCDEF'' ! d"
    using assms by (subst nth_map) simp_all
  also have "\<dots> = d" unfolding value_digits using assms by simp
  finally show "hex_value (upper_char (hex_digit d)) = d" using a by simp
  have "''0123456789ABCDEF'' ! d \<in> set ''0123456789ABCDEF''"
    using assms by (intro nth_mem) simp
  then show "upper_char (hex_digit d) \<in> set ''0123456789ABCDEF''" using a by simp
qed

lemma parse_hex_toString16: "parse_hex (toUpperCase (toString16 n)) = n"
proof (induction n rule: toString16.induct)
  case (1 n)
  show ?case
  proof (cases "n < 16")
    case True
    then show ?thesis
      by (subst toString16.simps) (simp add: toUpperCase_def parse_hex_def hex_digit_upper(2))
  next
    case False
    have "parse_hex (toUpperCase (toString16 n))
        = 16 * parse_hex (toUpperCase (toString16 (n div 16))) + hex_value (upper_char (hex_digit (n mod 16)))"
      using False by (subst toString16.simps) (simp add: toUpperCase_def parse_hex_snoc[symmetric])
    also have "\<dots> = 16 * (n div 16) + n mod 16"
      using 1[OF False] by (simp add: hex_digit_upper(2))
    finally show ?thesis by simp
  qed
qed

lemma set_toString16: "set (toUpperCase (toString16 n)) \<subseteq> set ''0123456789ABCDEF''"
proof (induction n rule: toString16.induct)
  case (1 n)
  show ?case
  proof (cases "n < 16")
    case True
    then show ?thesis
      using hex_digit_upper(3)[of n]
      by (subst toString16.simps) (simp add: toUpperCase_def)
  next
    case False
    then show ?thesis
      using 1[OF False] hex_digit_upper(3)[of "n mod 16"]
      by (subst toString16.simps) (simp add: toUpperCase_def)
  qed
qed

lemma parse_hex_zeros: "parse_hex (replicate k (CHR ''0'') @ s) = parse_hex s"
proof -
  have "foldl (\<lambda>acc c. 16 * acc + hex_value c) 0 (replicate k (CHR ''0'')) = 0"
    by (induction k) (simp_all add: hex_value_def)
  then show ?thesis by (simp add: parse_hex_def)
qed

lemma parse_hex_fmt: "parse_hex (fmt n) = n"
  by (simp add: fmt_def padStart_def parse_hex_zeros parse_hex_toString16)

lemma set_fmt: "set (fmt n) \<subseteq> set ''0123456789ABCDEF''"
  using set_toString16[of n] by (auto simp: fmt_def padStart_def)


lemma length_toString16_small: "n < 16 \<Longrightarrow> length (toString16 n) = 1"
  by (subst toString16.simps) simp

lemma length_toString16_big: "\<not> n < 16 \<Longrightarrow> length (toString16 n) = Suc (length (toString16 (n div 16)))"
  by (subst toString16.simps) simp

lemma length_toString16_bounds:
  "n < 16 ^ length (toString16 n) \<and> (1 < length (toString16 n) \<longrightarrow> 16 ^ (length (toString16 n) - 1) \<le> n)
    \<and> 0 < length (toString16 n)"
proof (induction n rule: toString16.induct)
  case (1 n)
  show ?case
  proof (cases "n < 16")
    case True
    then show ?thesis by (simp add: length_toString16_small)
  next
    case False
    let ?k = "length (toString16 (n div 16))"
    have len: "length (toString16 n) = Suc ?k"
      using False by (rule length_toString16_big)
    from 1[OF False] have a: "n div 16 < 16 ^ ?k" and b: "1 < ?k \<longrightarrow> 16 ^ (?k - 1) \<le> n div 16" and c: "0 < ?k"
      by auto
    have "n < 16 * 16 ^ ?k" using a by (simp add: less_mult_imp_div_less mult.commute)
    moreover have "16 ^ ?k \<le> n"
    proof (cases "1 < ?k")
      case True
      with b have "16 ^ (?k - 1) \<le> n div 16" by simp
      then have "16 * 16 ^ (?k - 1) \<le> 16 * (n div 16)" by simp
      also have "\<dots> \<le> n" by simp
      finally have "16 * 16 ^ (?k - 1) \<le> n" .
      moreover have "16 * (16::nat) ^ (?k - 1) = 16 ^ ?k" using c by (cases ?k) auto
      ultimately show ?thesis by simp
    next
      case False
      with c have "?k = 1" by arith
      with \<open>\<not> n < 16\<close> show ?thesis by simp
    qed
    ultimately show ?thesis using len by simp
  qed
qed


lemma split_at_join:
  "xs \<noteq> [] \<Longrightarrow> \<forall>x\<in>set xs. sep \<notin> set x \<Longrightarrow> split_at sep (join [sep] xs) = xs"
proof (induction "[sep]" xs rule: join.induct)
  case 1
  then show ?case by simp
next
  case (2 x)
  have "sep \<notin> set x \<Longrightarrow> split_at sep x = [x]"
    by (induction x) (auto split: list.splits)
  with 2 show ?case by simp
next
  case (3 x y ys)
  have "sep \<notin> set x \<Longrightarrow> split_at sep (x @ sep # r) = x # split_at sep r" for r
    by (induction x) (auto split: list.splits)
  with 3 show ?case by simp
qed

lemma split_at_single: "sep \<notin> set x \<Longrightarrow> split_at sep x = [x]"
  by (induction x) (auto split: list.splits)

lemma split_at_two: "sep \<notin> set x \<Longrightarrow> sep \<notin> set y \<Longrightarrow> split_at sep (x @ sep # y) = [x, y]"
  by (induction x) (auto simp: split_at_single split: list.splits)

lemma fmt_no_sep: "CHR '','' \<notin> set (fmt n)" "CHR ''-'' \<notin> set (fmt n)"
  using set_fmt[of n] by auto

lemma fmt_range_no_comma: "CHR '','' \<notin> set (fmt_range r)"
  by (cases r) (simp add: fmt_range_def fmt_no_sep)

lemma fmt_range_nonempty: "fmt_range r \<noteq> []"
  by (cases r) (simp add: fmt_range_def)

lemma decode_fmt_range: "decode_token (fmt_range (a, b)) = {a..b}"
  by (simp add: decode_token_def fmt_range_def split_at_single split_at_two fmt_no_sep parse_hex_fmt)

lemma join_nonempty: "xs \<noteq> [] \<Longrightarrow> \<forall>x\<in>set xs. x \<noteq> [] \<Longrightarrow> join sep xs \<noteq> []"
  by (induction sep xs rule: join.induct) auto

lemma tokens_of_join:
  "tokens_of (join '','' (map fmt_range rs)) = map fmt_range rs"
proof (cases rs)
  case Nil
  then show ?thesis by (simp add: tokens_of_def)
next
  case (Cons r rs')
  then have ne: "map fmt_range rs \<noteq> []" by simp
  have "join '','' (map fmt_range rs) \<noteq> []"
    using ne by (rule join_nonempty) (auto simp: fmt_range_nonempty)
  moreover have "split_at (CHR '','') (join [CHR '',''] (map fmt_range rs)) = map fmt_range rs"
    using ne by (rule split_at_join) (auto simp: fmt_range_no_comma)
  ultimately show ?thesis by (simp add: tokens_of_def)
qed

lemma decode_join: "decode_unicodes (join '','' (map fmt_range rs)) = cover rs"
  unfolding decode_unicodes_def tokens_of_join
  by (induction rs) (auto simp: decode_fmt_range cover_def)


lemma cover_loop:
  "s \<le> p \<Longrightarrow> cover (finish_ranges (foldl merge_step (rs, Some (s, p)) xs)) = cover rs \<union> {s..p} \<union> set xs"
proof (induction xs arbitrary: rs s p)
  case Nil
  then show ?case by auto
next
  case (Cons x xs)
  show ?case
  proof (cases "x = p + 1")
    case True
    have "s \<le> x" using Cons.prems True by simp
    from Cons.IH[OF this, of rs] True Cons.prems show ?thesis by (auto simp: atLeastAtMostSuc_conv)
  next
    case False
    have "x \<le> x" by simp
    from Cons.IH[OF this, of "rs @ [(s, p)]"] False show ?thesis by auto
  qed
qed

lemma cover_merge_ranges: "cover (merge_ranges xs) = set xs"
proof (cases xs)
  case Nil
  then show ?thesis by (simp add: merge_ranges_def)
next
  case (Cons x xs')
  have "x \<le> x" by simp
  from cover_loop[OF this, of "[]" xs'] Cons show ?thesis by (auto simp: merge_ranges_def)
qed

lemma starts_loop:
  assumes "s \<le> p" "sorted xs" "distinct xs" "\<forall>x\<in>set xs. p < x"
    and "\<forall>r\<in>set rs. fst r < s \<and> snd r < s"
    and "distinct (map fst rs)"
    and "S = cover rs \<union> {s..p} \<union> set xs"
    and "\<forall>a\<in>set (map fst rs @ [s]). a \<in> S \<and> (\<forall>c. Suc c = a \<longrightarrow> c \<notin> S)"
  shows "distinct (map fst (finish_ranges (foldl merge_step (rs, Some (s, p)) xs)))
       \<and> (\<forall>a\<in>set (map fst (finish_ranges (foldl merge_step (rs, Some (s, p)) xs))).
             a \<in> S \<and> (\<forall>c. Suc c = a \<longrightarrow> c \<notin> S))"
  using assms
proof (induction xs arbitrary: rs s p)
  case Nil
  then show ?case by auto
next
  case (Cons x xs)
  from Cons.prems have px: "p < x" and xs: "sorted xs" "distinct xs" "\<forall>y\<in>set xs. x < y"
    by (auto simp: less_le)
  show ?case
  proof (cases "x = p + 1")
    case True
    have S: "S = cover rs \<union> {s..x} \<union> set xs"
      using Cons.prems(1,7) True by (auto simp: atLeastAtMostSuc_conv)
    have "s \<le> x" using Cons.prems(1) True by simp
    from Cons.IH[OF this xs Cons.prems(5,6) S Cons.prems(8)] True show ?thesis by simp
  next
    case False
    with px have gap: "Suc p < x" by simp
    let ?rs = "rs @ [(s, p)]"
    have S: "S = cover ?rs \<union> {x..x} \<union> set xs"
      using Cons.prems(7) by auto
    have below: "\<forall>r\<in>set ?rs. fst r < x \<and> snd r < x"
      using Cons.prems(1,5) px by auto
    have dist: "distinct (map fst ?rs)"
      using Cons.prems(5,6) by auto
    have "x \<notin> fst ` set rs" "x \<noteq> s" using below by auto
    have xS: "x \<in> S" using S by simp
    have "c \<notin> S" if "Suc c = x" for c
    proof -
      have "p < c" "c < x" using that gap by auto
      then have "c \<notin> {s..p}" "c \<notin> set xs" "c \<noteq> x" using xs(3) by auto
      moreover have "c \<notin> cover rs"
        using Cons.prems(5) \<open>p < c\<close> Cons.prems(1) by (auto simp: cover_def)
      ultimately show ?thesis using Cons.prems(7) by auto
    qed
    with xS Cons.prems(8)
    have starts: "\<forall>a\<in>set (map fst ?rs @ [x]). a \<in> S \<and> (\<forall>c. Suc c = a \<longrightarrow> c \<notin> S)"
      by auto
    have "x \<le> x" by simp
    from Cons.IH[OF this xs below dist S starts] False show ?thesis by simp
  qed
qed

lemma starts_merge_ranges:
  assumes "sorted xs" "distinct xs"
  shows "distinct (map fst (merge_ranges xs))"
    and "\<forall>a\<in>set (map fst (merge_ranges xs)). a \<in> set xs \<and> (\<forall>c. Suc c = a \<longrightarrow> c \<notin> set xs)"
proof -
  have "distinct (map fst (merge_ranges xs))
      \<and> (\<forall>a\<in>set (map fst (merge_ranges xs)). a \<in> set xs \<and> (\<forall>c. Suc c = a \<longrightarrow> c \<notin> set xs))"
  proof (cases xs)
    case Nil
    then show ?thesis by (simp add: merge_ranges_def)
  next
    case (Cons x xs')
    have "x \<le> x" by simp
    moreover have "sorted xs'" "distinct xs'" "\<forall>y\<in>set xs'. x < y"
      using assms Cons by (auto simp: less_le)
    moreover have "\<forall>r\<in>set ([]::(nat \<times> nat) list). fst r < x \<and> snd r < x" by simp
    moreover have "distinct (map fst ([]::(nat \<times> nat) list))" by simp
    moreover have "set xs = cover [] \<union> {x..x} \<union> set xs'" using Cons by auto
    moreover have "\<forall>a\<in>set (map fst ([]::(nat \<times> nat) list) @ [x]). a \<in> set xs \<and> (\<forall>c. Suc c = a \<longrightarrow> c \<notin> set xs)"
      using Cons assms \<open>\<forall>y\<in>set xs'. x < y\<close> by auto
    ultimately show ?thesis
      using starts_loop[of x x xs' "[]" "set xs"] Cons by (simp add: merge_ranges_def)
  qed
  then show "distinct (map fst (merge_ranges xs))"
    and "\<forall>a\<in>set (map fst (merge_ranges xs)). a \<in> set xs \<and> (\<forall>c. Suc c = a \<longrightarrow> c \<notin> set xs)"
    by blast+
qed

lemma minimal_cover:
  assumes "distinct (map fst out)"
    and "\<forall>a\<in>set (map fst out). a \<in> S \<and> (\<forall>c. Suc c = a \<longrightarrow> c \<notin> S)"
    and "cover ivs = S"
  shows "length out \<le> length ivs"
proof -
  have "fst ` set out \<subseteq> fst ` set ivs"
  proof
    fix a assume a: "a \<in> fst ` set out"
    with assms(2) have aS: "a \<in> S" and pre: "\<forall>c. Suc c = a \<longrightarrow> c \<notin> S" by auto
    from aS assms(3) obtain iv where iv: "iv \<in> set ivs" "fst iv \<le> a" "a \<le> snd iv"
      by (auto simp: cover_def)
    have "fst iv = a"
    proof (rule ccontr)
      assume "fst iv \<noteq> a"
      with iv have lt: "fst iv < a" by simp
      then obtain c where c: "Suc c = a" by (cases a) auto
      with lt iv have "c \<in> {fst iv..snd iv}" by auto
      with iv(1) assms(3) have "c \<in> S" by (auto simp: cover_def)
      with pre c show False by blast
    qed
    with iv(1) show "a \<in> fst ` set ivs" by force
  qed
  then have "card (fst ` set out) \<le> card (fst ` set ivs)"
    by (intro card_mono) auto
  moreover have "card (fst ` set out) = length out"
    using assms(1) by (metis distinct_card length_map set_map)
  moreover have "card (fst ` set ivs) \<le> length ivs"
    by (metis card_length length_map set_map)
  ultimately show ?thesis by simp
qed


lemma length_fmt:
  "4 \<le> length (fmt cp)" "cp < 16 ^ length (fmt cp)"
  "4 < length (fmt cp) \<Longrightarrow> 16 ^ (length (fmt cp) - 1) \<le> cp"
proof -
  let ?k = "length (toString16 cp)"
  have len: "length (fmt cp) = max 4 ?k"
    by (simp add: fmt_def padStart_def toUpperCase_def max_def)
  from length_toString16_bounds[of cp]
  have a: "cp < 16 ^ ?k" and b: "1 < ?k \<longrightarrow> 16 ^ (?k - 1) \<le> cp" by auto
  show "4 \<le> length (fmt cp)" using len by simp
  have "(16::nat) ^ ?k \<le> 16 ^ max 4 ?k" by (intro power_increasing) auto
  with a have "cp < 16 ^ max 4 ?k" by (rule less_le_trans)
  then show "cp < 16 ^ length (fmt cp)" using len by simp
  show "16 ^ (length (fmt cp) - 1) \<le> cp" if "4 < length (fmt cp)"
  proof -
    from that len have "length (fmt cp) = ?k" "1 < ?k" by (auto simp: max_def split: if_splits)
    with b show ?thesis by simp
  qed
qed


lemma replicate_numeral: "replicate (numeral k) x = x # replicate (pred_numeral k) x"
  by (simp add: numeral_eq_Suc)

lemmas eval_compactor = replicate_numeral
  charsToUnicodeArg_def codePointAt0_def merge_ranges_def fmt_range_def fmt_def padStart_def
  toUpperCase_def toString16.simps hex_digit_def upper_char_def

lemma run_starts_merge_ranges:
  assumes "sorted xs" "distinct xs"
  shows "fst ` set (merge_ranges xs) = {a \<in> set xs. \<forall>c. Suc c = a \<longrightarrow> c \<notin> set xs}"
proof (intro equalityI subsetI)
  fix a assume "a \<in> fst ` set (merge_ranges xs)"
  with starts_merge_ranges(2)[OF assms]
  show "a \<in> {a \<in> set xs. \<forall>c. Suc c = a \<longrightarrow> c \<notin> set xs}" by auto
next
  fix a assume "a \<in> {a \<in> set xs. \<forall>c. Suc c = a \<longrightarrow> c \<notin> set xs}"
  then have aS: "a \<in> set xs" and pre: "\<forall>c. Suc c = a \<longrightarrow> c \<notin> set xs" by auto
  from aS have "a \<in> cover (merge_ranges xs)" by (simp add: cover_merge_ranges)
  then obtain iv where iv: "iv \<in> set (merge_ranges xs)" "fst iv \<le> a" "a \<le> snd iv"
    by (auto simp: cover_def)
  have "fst iv = a"
  proof (rule ccontr)
    assume "fst iv \<noteq> a"
    with iv have lt: "fst iv < a" by simp
    then obtain c where c: "Suc c = a" by (cases a) auto
    with lt iv have "c \<in> {fst iv..snd iv}" by auto
    with iv(1) have "c \<in> cover (merge_ranges xs)" by (auto simp: cover_def)
    then have "c \<in> set xs" by (simp add: cover_merge_ranges)
    with pre c show False by blast
  qed
  with iv(1) show "a \<in> fst ` set (merge_ranges xs)" by force
qed

text \<open>
  C1. For every list of characters whose codepoints are defined, \<^verbatim>\<open>charsToUnicodeArg\<close>
  returns a specification whose tokens decode to exactly the set of the input codepoints.
  When the codepoints are distinct (a set), the number of tokens is the number of maximal
  runs of consecutive codepoints (counted by their first elements), and no list of closed
  intervals with the same union is shorter.
\<close>

theorem compaction_round_trip_minimal:
  assumes "those (map codePointAt0 chars) = Some cps"
  shows "\<exists>arg. charsToUnicodeArg chars = Inr arg
           \<and> decode_unicodes arg = set cps
           \<and> (distinct cps \<longrightarrow>
                length (tokens_of arg) = card {a \<in> set cps. \<forall>c. Suc c = a \<longrightarrow> c \<notin> set cps}
              \<and> (\<forall>ivs. cover ivs = set cps \<longrightarrow> length (tokens_of arg) \<le> length ivs))"
proof -
  let ?rs = "merge_ranges (sort cps)"
  let ?arg = "join '','' (map fmt_range ?rs)"
  have run: "charsToUnicodeArg chars = Inr ?arg"
    using assms by (simp add: charsToUnicodeArg_def)
  have rt: "decode_unicodes ?arg = set cps"
    by (simp add: decode_join cover_merge_ranges)
  have toks: "length (tokens_of ?arg) = length ?rs"
    by (simp add: tokens_of_join)
  have minimal: "length ?rs = card {a \<in> set cps. \<forall>c. Suc c = a \<longrightarrow> c \<notin> set cps}
      \<and> (\<forall>ivs. cover ivs = set cps \<longrightarrow> length ?rs \<le> length ivs)" if d: "distinct cps"
  proof -
    have s: "sorted (sort cps)" "distinct (sort cps)" using d by simp_all
    have "card (fst ` set ?rs) = length ?rs"
      using starts_merge_ranges(1)[OF s] by (metis distinct_card length_map set_map)
    then have "length ?rs = card {a \<in> set cps. \<forall>c. Suc c = a \<longrightarrow> c \<notin> set cps}"
      using run_starts_merge_ranges[OF s] by simp
    moreover have "length ?rs \<le> length ivs" if "cover ivs = set cps" for ivs
      using minimal_cover[OF starts_merge_ranges[OF s], of ivs] that by simp
    ultimately show ?thesis by blast
  qed
  show ?thesis using run rt toks minimal by auto
qed

theorem compaction_round_trip_minimal_witness:
  "those (map codePointAt0 [[100], [65], [66], [69], [67]]) = Some [100, 65, 66, 69, 67]
   \<and> distinct [100, 65, 66, 69, 67 :: nat]
   \<and> cover [(100, 100), (65, 66), (67, 67), (69, 69)] = set [100, 65, 66, 69, 67]
   \<and> (\<exists>arg. charsToUnicodeArg [[100], [65], [66], [69], [67]] = Inr arg
        \<and> decode_unicodes arg = {65, 66, 67, 69, 100}
        \<and> length (tokens_of arg) \<le> 4)"
proof -
  have h: "those (map codePointAt0 [[100], [65], [66], [69], [67]]) = Some [100, 65, 66, 69, 67]"
    by (simp add: codePointAt0_def)
  have c: "cover [(100, 100), (65, 66), (67, 67), (69, 69)] = set [100, 65, 66, 69, 67]"
    by (auto simp: atLeastAtMostSuc_conv)
  from compaction_round_trip_minimal[OF h] obtain arg where
    arg: "charsToUnicodeArg [[100], [65], [66], [69], [67]] = Inr arg"
      "decode_unicodes arg = set [100, 65, 66, 69, 67]"
      "\<forall>ivs. cover ivs = set [100, 65, 66, 69, 67] \<longrightarrow> length (tokens_of arg) \<le> length ivs"
    by auto
  from arg(3) c have "length (tokens_of arg) \<le> length [(100, 100), (65, 66), (67, 67), (69::nat, 69::nat)]"
    by blast
  with h c arg(1,2) show ?thesis by auto
qed

text \<open>
  C8. The specification is the comma-joined list of one token per merged interval; a
  singleton is \<^verbatim>\<open>U+XXXX\<close> and a range \<^verbatim>\<open>U+XXXX-YYYY\<close>; a codepoint is written in
  uppercase hexadecimal digits that read back as the codepoint, at least four of them and
  no more than four unless the codepoint needs them (so a codepoint above \<open>0xFFFF\<close> has
  five or six); \<open>{65, 66, 67, 69, 100}\<close> gives \<^verbatim>\<open>U+0041-0043,U+0045,U+0064\<close> and the
  character U+1F600 gives \<^verbatim>\<open>U+1F600\<close>.
\<close>

theorem serialization_format:
  "(\<forall>cps. those (map codePointAt0 chars) = Some cps \<longrightarrow>
      (\<exists>arg. charsToUnicodeArg chars = Inr arg
         \<and> tokens_of arg = map fmt_range (merge_ranges (sort cps))
         \<and> arg = join '','' (tokens_of arg)))
   \<and> fmt_range (a, a) = ''U+'' @ fmt a
   \<and> (a \<noteq> b \<longrightarrow> fmt_range (a, b) = ''U+'' @ fmt a @ ''-'' @ fmt b)
   \<and> set (fmt cp) \<subseteq> set ''0123456789ABCDEF''
   \<and> parse_hex (fmt cp) = cp
   \<and> 4 \<le> length (fmt cp)
   \<and> cp < 16 ^ length (fmt cp)
   \<and> (4 < length (fmt cp) \<longrightarrow> 16 ^ (length (fmt cp) - 1) \<le> cp)
   \<and> charsToUnicodeArg [[65], [66], [67], [69], [100]] = Inr ''U+0041-0043,U+0045,U+0064''
   \<and> charsToUnicodeArg [[0xD83D, 0xDE00]] = Inr ''U+1F600''"
proof -
  have ex1: "charsToUnicodeArg [[65], [66], [67], [69], [100]] = Inr ''U+0041-0043,U+0045,U+0064''"
    by (simp add: eval_compactor)
  have ex2: "charsToUnicodeArg [[0xD83D, 0xDE00]] = Inr ''U+1F600''"
    by (simp add: eval_compactor)
  have "\<exists>arg. charsToUnicodeArg chars = Inr arg
         \<and> tokens_of arg = map fmt_range (merge_ranges (sort cps))
         \<and> arg = join '','' (tokens_of arg)"
    if "those (map codePointAt0 chars) = Some cps" for cps
    using that by (simp add: charsToUnicodeArg_def tokens_of_join)
  then show ?thesis
    using ex1 ex2 set_fmt[of cp] parse_hex_fmt[of cp] length_fmt[of cp]
    by (simp add: fmt_range_def)
qed

theorem serialization_format_witness:
  "those (map codePointAt0 [[0x1F600 - 0x10000 + 0], [65], [66]]) \<noteq> None
   \<and> tokens_of ''U+0041-0042,U+F600'' = [''U+0041-0042'', ''U+F600'']
   \<and> length (fmt 0x1F600) = 5 \<and> fmt 0x1F600 = ''1F600'' \<and> fmt 9 = ''0009''
   \<and> fmt_range (65, 66) = ''U+0041-0042''"
  using serialization_format[of "[[0xF600], [65], [66]]" 65 66 "0x1F600"]
  by (simp add: eval_compactor tokens_of_def)


section \<open>Properties of the Font Subsetter\<close>

text \<open>
  C5. \<^verbatim>\<open>subsetOneFont\<close> returns \<^verbatim>\<open>true\<close> exactly when the external process ended with
  status zero and its output file exists. Then the output file has been renamed over the
  font file. Otherwise it returns \<^verbatim>\<open>false\<close> and leaves the file system as the process
  left it: it performs no file operation of its own, so a font file the process did not
  touch has the bytes it had.
\<close>

theorem subset_replaces_only_on_success:
  assumes "spawnSync ''python3'' (subset_args srcPath (srcPath @ ''.subset.tmp.woff2'') unicodesArg) (files w)
             = (status, fs1)"
  shows "(snd (subsetOneFont spawnSync srcPath unicodesArg w) = Inr True
            \<longleftrightarrow> status = Some 0 \<and> fs1 (srcPath @ ''.subset.tmp.woff2'') \<noteq> None)
       \<and> (snd (subsetOneFont spawnSync srcPath unicodesArg w) = Inr True \<longrightarrow>
            files (fst (subsetOneFont spawnSync srcPath unicodesArg w))
              = fs1(srcPath @ ''.subset.tmp.woff2'' := None, srcPath := fs1 (srcPath @ ''.subset.tmp.woff2'')))
       \<and> (snd (subsetOneFont spawnSync srcPath unicodesArg w) \<noteq> Inr True \<longrightarrow>
            snd (subsetOneFont spawnSync srcPath unicodesArg w) = Inr False
          \<and> files (fst (subsetOneFont spawnSync srcPath unicodesArg w)) = fs1
          \<and> (fs1 srcPath = files w srcPath \<longrightarrow>
               files (fst (subsetOneFont spawnSync srcPath unicodesArg w)) srcPath = files w srcPath))"
  using assms
  by (auto simp: subsetOneFont_def Let_def existsSync_def renameSync_def subset_log_def
           split: option.splits)

theorem subset_replaces_only_on_success_witness:
  "subsetOneFont (\<lambda>cmd args fs. (Some 0, fs(''/f.woff2.subset.tmp.woff2'' \<mapsto> ''small''))) ''/f.woff2'' ''U+0041''
      \<lparr>files = [''/f.woff2'' \<mapsto> ''big''], stdout = [], stderr = []\<rparr>
     = (\<lparr>files = [''/f.woff2'' \<mapsto> ''small''], stdout = [], stderr = []\<rparr>, Inr True)
   \<and> snd (subsetOneFont (\<lambda>cmd args fs. (Some 1, fs(''/f.woff2.subset.tmp.woff2'' \<mapsto> ''junk''))) ''/f.woff2'' ''U+0041''
      \<lparr>files = [''/f.woff2'' \<mapsto> ''big''], stdout = [], stderr = []\<rparr>) = Inr False
   \<and> files (fst (subsetOneFont (\<lambda>cmd args fs. (Some 1, fs(''/f.woff2.subset.tmp.woff2'' \<mapsto> ''junk''))) ''/f.woff2'' ''U+0041''
      \<lparr>files = [''/f.woff2'' \<mapsto> ''big''], stdout = [], stderr = []\<rparr>)) ''/f.woff2'' = Some ''big''"
proof -
  let ?w = "\<lparr>files = [''/f.woff2'' \<mapsto> ''big''], stdout = [], stderr = []\<rparr>"
  let ?ok = "\<lambda>cmd args fs. (Some (0::int), fs(''/f.woff2.subset.tmp.woff2'' \<mapsto> ''small''))"
  let ?bad = "\<lambda>cmd args fs. (Some (1::int), fs(''/f.woff2.subset.tmp.woff2'' \<mapsto> ''junk''))"
  note A = subset_replaces_only_on_success[of ?ok "''/f.woff2''" "''U+0041''" ?w "Some 0"
      "[''/f.woff2'' \<mapsto> ''big'', ''/f.woff2.subset.tmp.woff2'' \<mapsto> ''small'']"]
  note B = subset_replaces_only_on_success[of ?bad "''/f.woff2''" "''U+0041''" ?w "Some 1"
      "[''/f.woff2'' \<mapsto> ''big'', ''/f.woff2.subset.tmp.woff2'' \<mapsto> ''junk'']"]
  have okT: "snd (subsetOneFont ?ok ''/f.woff2'' ''U+0041'' ?w) = Inr True"
    using A by simp
  then have okF: "files (fst (subsetOneFont ?ok ''/f.woff2'' ''U+0041'' ?w)) = [''/f.woff2'' \<mapsto> ''small'']"
    using A by (auto simp: fun_eq_iff)
  have okW: "stdout (fst (subsetOneFont ?ok ''/f.woff2'' ''U+0041'' ?w)) = []"
    "stderr (fst (subsetOneFont ?ok ''/f.woff2'' ''U+0041'' ?w)) = []"
    by (simp_all add: subsetOneFont_def Let_def existsSync_def renameSync_def)
  have ok: "subsetOneFont ?ok ''/f.woff2'' ''U+0041'' ?w
      = (\<lparr>files = [''/f.woff2'' \<mapsto> ''small''], stdout = [], stderr = []\<rparr>, Inr True)"
    using okT okF okW by (cases "subsetOneFont ?ok ''/f.woff2'' ''U+0041'' ?w") auto
  have bad: "snd (subsetOneFont ?bad ''/f.woff2'' ''U+0041'' ?w) = Inr False
    \<and> files (fst (subsetOneFont ?bad ''/f.woff2'' ''U+0041'' ?w)) ''/f.woff2'' = Some ''big''"
    using B by simp
  show ?thesis using ok bad by simp
qed


section \<open>Properties of the fingerprint step\<close>

subsection \<open>Paths\<close>

lemma takeWhile_rev_sep:
  "c \<notin> set n \<Longrightarrow> takeWhile (\<lambda>x. x \<noteq> c) (rev n @ c # r) = rev n"
  "c \<notin> set n \<Longrightarrow> takeWhile (\<lambda>x. x \<noteq> c) (rev n) = rev n"
  by (induction n rule: rev_induct) auto

lemma dropWhile_rev_sep:
  "c \<notin> set n \<Longrightarrow> dropWhile (\<lambda>x. x \<noteq> c) (rev n @ c # r) = c # r"
  by (induction n rule: rev_induct) auto

lemma basename1_append: "CHR ''/'' \<notin> set n \<Longrightarrow> basename1 (d @ CHR ''/'' # n) = n"
  by (simp add: basename1_def takeWhile_rev_sep)

lemma dirname_append:
  "CHR ''/'' \<notin> set n \<Longrightarrow> dirname (d @ CHR ''/'' # n) = (if d = [] then ''/'' else d)"
  by (simp add: dirname_def dropWhile_rev_sep)

lemma extname_append:
  assumes "CHR ''/'' \<notin> set b" "CHR ''/'' \<notin> set x" "CHR ''.'' \<notin> set x" "b \<noteq> []" "b @ CHR ''.'' # x \<noteq> ''..''"
  shows "extname (d @ CHR ''/'' # b @ CHR ''.'' # x) = CHR ''.'' # x"
proof -
  have "basename1 (d @ CHR ''/'' # (b @ CHR ''.'' # x)) = b @ CHR ''.'' # x"
    using assms by (intro basename1_append) simp
  then show ?thesis
    using assms by (simp add: extname_def Let_def takeWhile_rev_sep)
qed

lemma basename_append:
  assumes "CHR ''/'' \<notin> set b" "CHR ''/'' \<notin> set x" "b \<noteq> []"
  shows "basename (d @ CHR ''/'' # b @ CHR ''.'' # x) (CHR ''.'' # x) = b"
proof -
  have "basename1 (d @ CHR ''/'' # (b @ CHR ''.'' # x)) = b @ CHR ''.'' # x"
    using assms by (intro basename1_append) simp
  moreover have "suffix (CHR ''.'' # x) (b @ CHR ''.'' # x)" by (simp add: suffix_def)
  ultimately show ?thesis
    using assms by (simp add: basename_def Let_def)
qed

lemma hashed_path_shape:
  assumes "CHR ''/'' \<notin> set b" "CHR ''/'' \<notin> set x" "CHR ''.'' \<notin> set x" "b \<noteq> []"
    "b @ CHR ''.'' # x \<noteq> ''..''" "d \<noteq> []" "d \<noteq> ''.''" "last d \<noteq> CHR ''/''"
  shows "path_join (dirname (d @ CHR ''/'' # b @ CHR ''.'' # x))
           (basename (d @ CHR ''/'' # b @ CHR ''.'' # x) (extname (d @ CHR ''/'' # b @ CHR ''.'' # x))
              @ ''.'' @ hash @ extname (d @ CHR ''/'' # b @ CHR ''.'' # x))
         = d @ ''/'' @ b @ ''.'' @ hash @ ''.'' @ x"
proof -
  have "dirname (d @ CHR ''/'' # (b @ CHR ''.'' # x)) = d"
    using assms by (subst dirname_append) simp_all
  then show ?thesis
    using assms by (simp add: extname_append basename_append path_join_def)
qed


subsection \<open>Hashed copies\<close>

lemma ensure_exists:
  "existsSync w (hashed_path file hash) \<Longrightarrow>
     ensureCopyWithHash w file hash = (w, Inr (hashed_path file hash))"
  by (simp add: ensureCopyWithHash_def hashed_path_def Let_def)

lemma ensure_new:
  "\<not> existsSync w (hashed_path file hash) \<Longrightarrow> files w file = Some b \<Longrightarrow>
     ensureCopyWithHash w file hash
       = (w\<lparr>files := (files w)(hashed_path file hash \<mapsto> b)\<rparr>, Inr (hashed_path file hash))"
  by (simp add: ensureCopyWithHash_def hashed_path_def Let_def copyFileSync_def)

lemma ensure_missing:
  "\<not> existsSync w (hashed_path file hash) \<Longrightarrow> files w file = None \<Longrightarrow>
     ensureCopyWithHash w file hash = (w, Inl ENOENT)"
  by (simp add: ensureCopyWithHash_def hashed_path_def Let_def copyFileSync_def)

lemma ensure_result:
  assumes "ensureCopyWithHash w file hash = (w1, Inr p)"
  shows "p = hashed_path file hash
        \<and> (\<forall>q. q \<noteq> hashed_path file hash \<longrightarrow> files w1 q = files w q)
        \<and> (\<forall>b. files w (hashed_path file hash) = Some b \<longrightarrow> files w1 (hashed_path file hash) = Some b)
        \<and> ensureCopyWithHash w1 file hash = (w1, Inr p)"
proof (cases "existsSync w (hashed_path file hash)")
  case True
  from ensure_exists[OF True] assms have "w1 = w" "p = hashed_path file hash" by simp_all
  with True ensure_exists[OF True] show ?thesis by simp
next
  case False
  show ?thesis
  proof (cases "files w file")
    case None
    from ensure_missing[OF False None] assms show ?thesis by simp
  next
    case (Some b)
    from ensure_new[OF False Some] assms
    have w1: "w1 = w\<lparr>files := (files w)(hashed_path file hash \<mapsto> b)\<rparr>" and p: "p = hashed_path file hash"
      by simp_all
    have "existsSync w1 (hashed_path file hash)" using w1 by (simp add: existsSync_def)
    from ensure_exists[OF this] have "ensureCopyWithHash w1 file hash = (w1, Inr p)" using p by simp
    moreover have "\<forall>b. files w (hashed_path file hash) = Some b \<longrightarrow> files w1 (hashed_path file hash) = Some b"
      using False by (simp add: existsSync_def)
    ultimately show ?thesis using w1 p by simp
  qed
qed

text \<open>
  C4. \<^verbatim>\<open>ensureCopyWithHash\<close> returns the path \<open>hashed_path file hash\<close>. When a file exists
  there, nothing is written. When none exists, the one change is the copy of the source
  at that path. Whatever it did, a second call changes nothing, and no other path is
  touched. For a file \<^verbatim>\<open>d/b.x\<close> the path is \<^verbatim>\<open>d/b.hash.x\<close>, with the base name \<open>b\<close> kept as
  it is (spaces included).
\<close>

theorem ensure_copy_never_overwrites:
  "(existsSync w (hashed_path file hash) \<longrightarrow>
      ensureCopyWithHash w file hash = (w, Inr (hashed_path file hash)))
   \<and> (\<not> existsSync w (hashed_path file hash) \<longrightarrow>
        (\<forall>b. files w file = Some b \<longrightarrow>
           ensureCopyWithHash w file hash
             = (w\<lparr>files := (files w)(hashed_path file hash \<mapsto> b)\<rparr>, Inr (hashed_path file hash))))
   \<and> (\<forall>w1 p. ensureCopyWithHash w file hash = (w1, Inr p) \<longrightarrow>
          p = hashed_path file hash
        \<and> (\<forall>q. q \<noteq> hashed_path file hash \<longrightarrow> files w1 q = files w q)
        \<and> (\<forall>b. files w (hashed_path file hash) = Some b \<longrightarrow> files w1 (hashed_path file hash) = Some b)
        \<and> ensureCopyWithHash w1 file hash = (w1, Inr p))
   \<and> (CHR ''/'' \<notin> set b \<and> CHR ''/'' \<notin> set x \<and> CHR ''.'' \<notin> set x \<and> b \<noteq> []
        \<and> b @ CHR ''.'' # x \<noteq> ''..'' \<and> d \<noteq> [] \<and> d \<noteq> ''.'' \<and> last d \<noteq> CHR ''/'' \<longrightarrow>
        hashed_path (d @ ''/'' @ b @ ''.'' @ x) hash = d @ ''/'' @ b @ ''.'' @ hash @ ''.'' @ x)"
proof -
  have shape: "hashed_path (d @ ''/'' @ b @ ''.'' @ x) hash = d @ ''/'' @ b @ ''.'' @ hash @ ''.'' @ x"
    if "CHR ''/'' \<notin> set b" "CHR ''/'' \<notin> set x" "CHR ''.'' \<notin> set x" "b \<noteq> []"
       "b @ CHR ''.'' # x \<noteq> ''..''" "d \<noteq> []" "d \<noteq> ''.''" "last d \<noteq> CHR ''/''"
    using hashed_path_shape[OF that, of hash] by (simp add: hashed_path_def)
  show ?thesis
    using shape ensure_exists[of w "file" hash] ensure_new[of w "file" hash] ensure_result[of w "file" hash]
    by blast
qed

theorem ensure_copy_never_overwrites_witness:
  "hashed_path ''/site/fonts/Cormorant Variable Font.woff2'' ''0123456789''
     = ''/site/fonts/Cormorant Variable Font.0123456789.woff2''
   \<and> ensureCopyWithHash
        \<lparr>files = [''/site/fonts/Cormorant Variable Font.woff2'' \<mapsto> ''new'',
                  ''/site/fonts/Cormorant Variable Font.0123456789.woff2'' \<mapsto> ''old''],
         stdout = [], stderr = []\<rparr>
        ''/site/fonts/Cormorant Variable Font.woff2'' ''0123456789''
     = (\<lparr>files = [''/site/fonts/Cormorant Variable Font.woff2'' \<mapsto> ''new'',
                  ''/site/fonts/Cormorant Variable Font.0123456789.woff2'' \<mapsto> ''old''],
         stdout = [], stderr = []\<rparr>, Inr ''/site/fonts/Cormorant Variable Font.0123456789.woff2'')
   \<and> files (fst (ensureCopyWithHash
        \<lparr>files = [''/site/fonts/Cormorant Variable Font.woff2'' \<mapsto> ''new''], stdout = [], stderr = []\<rparr>
        ''/site/fonts/Cormorant Variable Font.woff2'' ''0123456789''))
        ''/site/fonts/Cormorant Variable Font.0123456789.woff2'' = Some ''new''"
proof -
  let ?f = "''/site/fonts/Cormorant Variable Font.woff2''"
  let ?h = "''/site/fonts/Cormorant Variable Font.0123456789.woff2''"
  let ?w = "\<lparr>files = [?f \<mapsto> ''new'', ?h \<mapsto> ''old''], stdout = [], stderr = []\<rparr>"
  let ?v = "\<lparr>files = [?f \<mapsto> ''new''], stdout = [], stderr = []\<rparr>"
  note W = ensure_copy_never_overwrites[of ?w ?f "''0123456789''" "''Cormorant Variable Font''" "''woff2''" "''/site/fonts''"]
  note V = ensure_copy_never_overwrites[of ?v ?f "''0123456789''" "''Cormorant Variable Font''" "''woff2''" "''/site/fonts''"]
  have pre: "CHR ''/'' \<notin> set ''Cormorant Variable Font'' \<and> CHR ''/'' \<notin> set ''woff2''
      \<and> CHR ''.'' \<notin> set ''woff2'' \<and> ''Cormorant Variable Font'' \<noteq> []
      \<and> ''Cormorant Variable Font'' @ CHR ''.'' # ''woff2'' \<noteq> ''..'' \<and> ''/site/fonts'' \<noteq> []
      \<and> ''/site/fonts'' \<noteq> ''.'' \<and> last ''/site/fonts'' \<noteq> CHR ''/''"
    by simp
  from W have "hashed_path (''/site/fonts'' @ ''/'' @ ''Cormorant Variable Font'' @ ''.'' @ ''woff2'') ''0123456789''
      = ''/site/fonts'' @ ''/'' @ ''Cormorant Variable Font'' @ ''.'' @ ''0123456789'' @ ''.'' @ ''woff2''"
    using pre by blast
  then have hp: "hashed_path ?f ''0123456789'' = ?h" by simp
  have ex: "existsSync ?w (hashed_path ?f ''0123456789'')"
    unfolding hp by (simp add: existsSync_def)
  from W ex have a: "ensureCopyWithHash ?w ?f ''0123456789'' = (?w, Inr (hashed_path ?f ''0123456789''))"
    by blast
  have nex: "\<not> existsSync ?v (hashed_path ?f ''0123456789'')"
    unfolding hp by (simp add: existsSync_def)
  have src: "files ?v ?f = Some ''new''" by simp
  from V nex src
  have "ensureCopyWithHash ?v ?f ''0123456789''
      = (?v\<lparr>files := (files ?v)(hashed_path ?f ''0123456789'' \<mapsto> ''new'')\<rparr>, Inr (hashed_path ?f ''0123456789''))"
    by blast
  then have b: "files (fst (ensureCopyWithHash ?v ?f ''0123456789'')) ?h = Some ''new''"
    unfolding hp by simp
  show ?thesis using hp a b by simp
qed


subsection \<open>The paths of the three assets\<close>

lemma asset_paths:
  assumes "ROOT e \<noteq> []" "hd (ROOT e) = CHR ''/''"
  shows "cssFile e = root_slash e @ ''assets/tailwind.css''"
    and "fontRegular e = root_slash e @ ''fonts/Cormorant Variable Font.woff2''"
    and "fontItalic e = root_slash e @ ''fonts/Cormorant Italic Variable Font.woff2''"
    and "INDEX e = root_slash e @ ''index.html''"
proof -
  have nd: "ROOT e \<noteq> ''.''" using assms by (cases "ROOT e") auto
  have j: "path_join (ROOT e) n = root_slash e @ n" for n
    using assms nd by (simp add: path_join_def root_slash_def)
  have k: "path_join (root_slash e @ ''assets'') m = root_slash e @ ''assets/'' @ m"
          "path_join (root_slash e @ ''fonts'') m = root_slash e @ ''fonts/'' @ m" for m
    by (simp_all add: path_join_def append_eq_Cons_conv)
  show "cssFile e = root_slash e @ ''assets/tailwind.css''"
    by (simp add: cssFile_def j k)
  show "fontRegular e = root_slash e @ ''fonts/Cormorant Variable Font.woff2''"
    by (simp add: fontRegular_def j k)
  show "fontItalic e = root_slash e @ ''fonts/Cormorant Italic Variable Font.woff2''"
    by (simp add: fontItalic_def j k)
  show "INDEX e = root_slash e @ ''index.html''"
    by (simp add: INDEX_def j)
qed

lemma root_slash_last: "ROOT e \<noteq> [] \<Longrightarrow> root_slash e \<noteq> [] \<and> last (root_slash e) = CHR ''/''"
  by (simp add: root_slash_def)

lemma hashed_asset_paths:
  assumes "ROOT e \<noteq> []" "hd (ROOT e) = CHR ''/''"
  shows "hashed_path (cssFile e) h = root_slash e @ ''assets/tailwind.'' @ h @ ''.css''"
    and "hashed_path (fontRegular e) h = root_slash e @ ''fonts/Cormorant Variable Font.'' @ h @ ''.woff2''"
    and "hashed_path (fontItalic e) h = root_slash e @ ''fonts/Cormorant Italic Variable Font.'' @ h @ ''.woff2''"
proof -
  have a: "hashed_path ((root_slash e @ ''assets'') @ CHR ''/'' # ''tailwind'' @ CHR ''.'' # ''css'') h
      = (root_slash e @ ''assets'') @ ''/'' @ ''tailwind'' @ ''.'' @ h @ ''.'' @ ''css''"
    unfolding hashed_path_def by (rule hashed_path_shape) simp_all
  have b: "hashed_path ((root_slash e @ ''fonts'') @ CHR ''/'' # ''Cormorant Variable Font'' @ CHR ''.'' # ''woff2'') h
      = (root_slash e @ ''fonts'') @ ''/'' @ ''Cormorant Variable Font'' @ ''.'' @ h @ ''.'' @ ''woff2''"
    unfolding hashed_path_def by (rule hashed_path_shape) simp_all
  have c: "hashed_path ((root_slash e @ ''fonts'') @ CHR ''/'' # ''Cormorant Italic Variable Font'' @ CHR ''.'' # ''woff2'') h
      = (root_slash e @ ''fonts'') @ ''/'' @ ''Cormorant Italic Variable Font'' @ ''.'' @ h @ ''.'' @ ''woff2''"
    unfolding hashed_path_def by (rule hashed_path_shape) simp_all
  show "hashed_path (cssFile e) h = root_slash e @ ''assets/tailwind.'' @ h @ ''.css''"
    using a by (simp add: asset_paths[OF assms])
  show "hashed_path (fontRegular e) h = root_slash e @ ''fonts/Cormorant Variable Font.'' @ h @ ''.woff2''"
    using b by (simp add: asset_paths[OF assms])
  show "hashed_path (fontItalic e) h = root_slash e @ ''fonts/Cormorant Italic Variable Font.'' @ h @ ''.woff2''"
    using c by (simp add: asset_paths[OF assms])
qed


lemma split_at_snoc_sep:
  "CHR ''/'' \<notin> set n \<Longrightarrow> split_at (CHR ''/'') (d @ CHR ''/'' # n) = split_at (CHR ''/'') d @ [n]"
  by (induction d) (auto simp: split_at_single split_at_nonempty split: list.splits)

lemma common_prefix_length_append: "common_prefix_length f (f @ ys) = length f"
  by (induction f) auto

lemma segments_below_root:
  assumes "ROOT e \<noteq> []" "CHR ''/'' \<notin> set a" "CHR ''/'' \<notin> set n" "a \<noteq> []" "n \<noteq> []"
  shows "segments (root_slash e @ a @ ''/'' @ n) = segments (ROOT e) @ [a, n]"
proof -
  obtain r0 where r0: "root_slash e = r0 @ ''/''"
    using root_slash_last[OF assms(1)] by (metis append_butlast_last_id)
  have "split_at (CHR ''/'') ((r0 @ CHR ''/'' # a) @ CHR ''/'' # n) = split_at (CHR ''/'') (r0 @ CHR ''/'' # a) @ [n]"
    using assms(3) by (rule split_at_snoc_sep)
  also have "split_at (CHR ''/'') (r0 @ CHR ''/'' # a) = split_at (CHR ''/'') r0 @ [a]"
    using assms(2) by (rule split_at_snoc_sep)
  finally have full: "segments (root_slash e @ a @ ''/'' @ n) = segments r0 @ [a, n]"
    using assms(4,5) by (simp add: segments_def r0)
  have "segments (ROOT e) = segments r0"
  proof (cases "last (ROOT e) = CHR ''/''")
    case True
    then have "ROOT e = r0 @ CHR ''/'' # []" using r0 by (simp add: root_slash_def)
    then have "split_at (CHR ''/'') (ROOT e) = split_at (CHR ''/'') r0 @ [[]]"
      using split_at_snoc_sep[of "[]" r0] by simp
    then show ?thesis by (simp add: segments_def)
  next
    case False
    then have "ROOT e = r0" using r0 by (simp add: root_slash_def)
    then show ?thesis by simp
  qed
  with full show ?thesis by simp
qed

lemma toWeb_below_root:
  assumes "ROOT e \<noteq> []" "CHR ''/'' \<notin> set a" "CHR ''/'' \<notin> set n" "a \<noteq> []" "n \<noteq> []"
  shows "toWeb e (Some (root_slash e @ a @ ''/'' @ n)) = Inr (''/'' @ a @ ''/'' @ n)"
proof -
  have "path_relative (ROOT e) (root_slash e @ a @ ''/'' @ n) = a @ ''/'' @ n"
    using segments_below_root[OF assms]
    by (simp add: path_relative_def Let_def common_prefix_length_append)
  moreover have "split_at (CHR ''/'') (a @ CHR ''/'' # n) = [a, n]"
    using assms(2,3) by (rule split_at_two)
  ultimately show ?thesis by (simp add: toWeb_def)
qed


subsection \<open>The loop that produces the copies\<close>

lemma hashFile_found: "files w f = Some b \<Longrightarrow> hashFile e w f = Inr (digest e b)"
  by (simp add: hashFile_def readFileSync_def digest_def)

lemma ensure_total:
  assumes "files w f = Some b"
  shows "\<exists>w1. ensureCopyWithHash w f h = (w1, Inr (hashed_path f h))
            \<and> (\<forall>q c. files w q = Some c \<longrightarrow> files w1 q = Some c)
            \<and> (\<forall>q c. files w1 q = Some c \<longrightarrow> files w q = Some c \<or> (q = hashed_path f h \<and> c = b))
            \<and> files w1 (hashed_path f h) \<noteq> None
            \<and> stdout w1 = stdout w \<and> stderr w1 = stderr w"
proof (cases "existsSync w (hashed_path f h)")
  case True
  from ensure_exists[OF True] True show ?thesis by (simp add: existsSync_def)
next
  case False
  from ensure_new[OF False assms] False show ?thesis by (auto simp: existsSync_def)
qed

lemma produce_copies_total:
  assumes "\<forall>f\<in>set fs. files w f \<noteq> None"
  shows "\<exists>w1 outs. produce_copies e fs w out = (w1, Inr outs)
     \<and> (\<forall>q c. files w q = Some c \<longrightarrow> files w1 q = Some c)
     \<and> (\<forall>q c. files w1 q = Some c \<longrightarrow>
            files w q = Some c \<or> (\<exists>f\<in>set fs. files w f = Some c \<and> q = hashed_path f (digest e c)))
     \<and> (\<forall>f\<in>set fs. \<forall>b. files w f = Some b \<longrightarrow>
            outs f = Some (hashed_path f (digest e b)) \<and> files w1 (hashed_path f (digest e b)) \<noteq> None)
     \<and> (\<forall>f. f \<notin> set fs \<longrightarrow> outs f = out f)
     \<and> stderr w1 = stderr w"
  using assms
proof (induction fs arbitrary: w out)
  case Nil
  then show ?case by simp
next
  case (Cons f fs)
  then obtain b where b: "files w f = Some b" by auto
  let ?hp = "hashed_path f (digest e b)"
  from ensure_total[OF b, of "digest e b"] obtain wa where
    wa: "ensureCopyWithHash w f (digest e b) = (wa, Inr ?hp)"
      "\<forall>q c. files w q = Some c \<longrightarrow> files wa q = Some c"
      "\<forall>q c. files wa q = Some c \<longrightarrow> files w q = Some c \<or> (q = ?hp \<and> c = b)"
      "files wa ?hp \<noteq> None"
      "stderr wa = stderr w"
    by blast
  let ?wb = "log wa (basename1 f @ '' -> '' @ basename1 ?hp)"
  have wbf: "files ?wb = files wa" "stderr ?wb = stderr wa" by (simp_all add: log_def)
  have ex: "\<forall>f'\<in>set fs. files ?wb f' \<noteq> None"
    using Cons.prems wa(2) wbf by fastforce
  from Cons.IH[OF ex, of "out(f \<mapsto> ?hp)"] obtain w1 outs where
    r: "produce_copies e fs ?wb (out(f \<mapsto> ?hp)) = (w1, Inr outs)"
    and keep: "\<forall>q c. files ?wb q = Some c \<longrightarrow> files w1 q = Some c"
    and new: "\<forall>q c. files w1 q = Some c \<longrightarrow>
            files ?wb q = Some c \<or> (\<exists>f'\<in>set fs. files ?wb f' = Some c \<and> q = hashed_path f' (digest e c))"
    and outs: "\<forall>f'\<in>set fs. \<forall>b. files ?wb f' = Some b \<longrightarrow>
            outs f' = Some (hashed_path f' (digest e b)) \<and> files w1 (hashed_path f' (digest e b)) \<noteq> None"
    and other: "\<forall>f'. f' \<notin> set fs \<longrightarrow> outs f' = (out(f \<mapsto> ?hp)) f'"
    and err: "stderr w1 = stderr ?wb"
    by blast
  have same: "files ?wb f' = Some c \<longleftrightarrow> files w f' = Some c" if "f' \<in> set (f # fs)" for f' c
  proof -
    from that Cons.prems obtain c' where c': "files w f' = Some c'" by auto
    with wa(2) wbf have "files ?wb f' = Some c'" by simp
    with c' show ?thesis by auto
  qed
  have run: "produce_copies e (f # fs) w out = (w1, Inr outs)"
    using b wa(1) r by (simp add: hashFile_found)
  have k: "\<forall>q c. files w q = Some c \<longrightarrow> files w1 q = Some c"
    using wa(2) wbf keep by simp
  have n: "files w q = Some c \<or> (\<exists>f'\<in>set (f # fs). files w f' = Some c \<and> q = hashed_path f' (digest e c))"
    if "files w1 q = Some c" for q c
  proof -
    from new that consider "files ?wb q = Some c"
      | f' where "f' \<in> set fs" "files ?wb f' = Some c" "q = hashed_path f' (digest e c)" by blast
    then show ?thesis
    proof cases
      case 1
      with wa(3) wbf have "files w q = Some c \<or> (q = ?hp \<and> c = b)" by simp
      with b show ?thesis by auto
    next
      case 2
      with same[of f' c] show ?thesis by auto
    qed
  qed
  have o: "outs f' = Some (hashed_path f' (digest e c)) \<and> files w1 (hashed_path f' (digest e c)) \<noteq> None"
    if "f' \<in> set (f # fs)" "files w f' = Some c" for f' c
  proof (cases "f' \<in> set fs")
    case True
    from that(2) same[OF that(1)] have "files ?wb f' = Some c" by simp
    with outs True show ?thesis by blast
  next
    case False
    with that(1) have ff: "f' = f" by simp
    with that(2) b have cb: "c = b" by simp
    have "outs f' = Some ?hp" using other False ff by simp
    moreover have "files w1 ?hp \<noteq> None" using wa(4) wbf keep by fastforce
    ultimately show ?thesis using ff cb by simp
  qed
  have oth: "\<forall>f'. f' \<notin> set (f # fs) \<longrightarrow> outs f' = out f'" using other by simp
  have e2: "stderr w1 = stderr w" using err wbf wa(5) by simp
  show ?case
    using run k n o oth e2 by (intro exI[of _ w1] exI[of _ outs]) blast
qed


subsection \<open>Errors in the body\<close>

lemma exit_status_zero: "snd (fingerprint_assets e w) = 0"
  by (simp add: fingerprint_assets_def main_def split: prod.splits sum.splits)

lemma fingerprint_assets_world:
  "fst (fingerprint_assets e w) = fst (main e w)"
  by (simp add: fingerprint_assets_def split: prod.splits sum.splits)

lemma main_files: "files (fst (main e w)) = files (fst (main_body e w))"
  by (simp add: main_def split: prod.splits sum.splits)

lemma found_exist:
  "\<forall>f\<in>set (filter (existsSync w) fs). files w f \<noteq> None"
  by (simp add: existsSync_def)

lemma body_error_keeps_index:
  assumes "files w (INDEX e) = Some html" "main_body e w = (w1, Inl err)"
    "\<forall>k. index_write e \<noteq> FailsAfterBytes k"
  shows "files w1 (INDEX e) = Some html"
proof -
  let ?found = "filter (existsSync w) [cssFile e, fontRegular e, fontItalic e]"
  from assms(2) have ns: "SKIP_FINGERPRINT e \<noteq> Some ''1''" and ne: "?found \<noteq> []"
    by (auto simp: main_body_def Let_def split: if_splits)
  from produce_copies_total[OF found_exist, where e=e and out=Map.empty] obtain wc outs where
    pc: "produce_copies e ?found w Map.empty = (wc, Inr outs)"
    and keep: "\<forall>q c. files w q = Some c \<longrightarrow> files wc q = Some c"
    by blast
  from keep assms(1) have idx: "files wc (INDEX e) = Some html" by simp
  then have rd: "readFileSync wc (INDEX e) = Inr html" by (simp add: readFileSync_def)
  show ?thesis
  proof (cases "rewrite_references e outs html")
    case (Inl err')
    with assms(2) ns ne pc rd have "w1 = wc" by (simp add: main_body_def Let_def)
    with idx show ?thesis by simp
  next
    case (Inr html')
    show ?thesis
    proof (cases "index_write e")
      case WriteOk
      with assms(2) ns ne pc rd Inr show ?thesis
        by (simp add: main_body_def Let_def writeFileSync_def)
    next
      case FailsBeforeOpen
      with assms(2) ns ne pc rd Inr have "w1 = wc"
        by (simp add: main_body_def Let_def writeFileSync_def)
      with idx show ?thesis by simp
    next
      case (FailsAfterBytes k)
      with assms(3) show ?thesis by simp
    qed
  qed
qed


lemmas eval_paths =
  cssFile_def fontRegular_def fontItalic_def INDEX_def path_join_def hashed_path_def
  dirname_def extname_def basename_def basename1_def path_relative_def segments_def toWeb_def
  suffix_to_prefix

lemmas eval_fs =
  existsSync_def readFileSync_def copyFileSync_def writeFileSync_def log_def hashFile_def
  ensureCopyWithHash_def site_env_def site_world_def

lemmas eval_rewrite =
  rewrite_references_def rewrite_font_def replaceAll_def match_ref_def match_hash_group_def
  is_hex_lower_def escape_path_def str_replaceAll_def match_lit_def split_str_def

text \<open>
  C9, as amended. The step always ends with status 0. When the body throws and the
  write of \<^verbatim>\<open>index.html\<close> has not failed after opening the file (the exception comes from
  a read, from a path or pattern function, or from a write refused at open), the document
  on disk has the bytes it had before the step.
\<close>

theorem error_before_write_keeps_html:
  assumes "files w (INDEX e) = Some html"
  shows "snd (fingerprint_assets e w) = 0
       \<and> (\<forall>w1 err. main_body e w = (w1, Inl err) \<longrightarrow> (\<forall>k. index_write e \<noteq> FailsAfterBytes k) \<longrightarrow>
             files (fst (fingerprint_assets e w)) (INDEX e) = Some html)"
proof -
  have "files (fst (fingerprint_assets e w)) (INDEX e) = Some html"
    if "main_body e w = (w1, Inl err)" "\<forall>k. index_write e \<noteq> FailsAfterBytes k" for w1 err
    using body_error_keeps_index[OF assms that] that(1)
    by (simp add: fingerprint_assets_world main_files)
  then show ?thesis using exit_status_zero by blast
qed


theorem error_before_write_keeps_html_witness:
  "files (site_world [(''/site/fonts/Cormorant Variable Font.woff2'', ''F''),
                      (''/site/index.html'', ''<a href=/fonts/Cormorant Variable Font.woff2>'')])
     (INDEX (site_env WriteOk)) = Some ''<a href=/fonts/Cormorant Variable Font.woff2>''
   \<and> snd (main_body (site_env WriteOk)
        (site_world [(''/site/fonts/Cormorant Variable Font.woff2'', ''F''),
                     (''/site/index.html'', ''<a href=/fonts/Cormorant Variable Font.woff2>'')])) = Inl TypeError
   \<and> files (fst (fingerprint_assets (site_env WriteOk)
        (site_world [(''/site/fonts/Cormorant Variable Font.woff2'', ''F''),
                     (''/site/index.html'', ''<a href=/fonts/Cormorant Variable Font.woff2>'')])))
        (INDEX (site_env WriteOk)) = Some ''<a href=/fonts/Cormorant Variable Font.woff2>''
   \<and> snd (fingerprint_assets (site_env WriteOk)
        (site_world [(''/site/fonts/Cormorant Variable Font.woff2'', ''F''),
                     (''/site/index.html'', ''<a href=/fonts/Cormorant Variable Font.woff2>'')])) = 0"
proof -
  let ?e = "site_env WriteOk"
  let ?w = "site_world [(''/site/fonts/Cormorant Variable Font.woff2'', ''F''),
                        (''/site/index.html'', ''<a href=/fonts/Cormorant Variable Font.woff2>'')]"
  have i: "files ?w (INDEX ?e) = Some ''<a href=/fonts/Cormorant Variable Font.woff2>''"
    by (simp add: eval_paths eval_fs)
  have b: "snd (main_body ?e ?w) = Inl TypeError"
    by (simp add: main_body_def Let_def eval_paths eval_fs eval_rewrite replicate_numeral)
  then obtain w1 where b1: "main_body ?e ?w = (w1, Inl TypeError)"
    by (cases "main_body ?e ?w") auto
  have w: "\<forall>k. index_write ?e \<noteq> FailsAfterBytes k" by (simp add: site_env_def)
  from error_before_write_keeps_html[OF i] b1 w
  have "snd (fingerprint_assets ?e ?w) = 0
      \<and> files (fst (fingerprint_assets ?e ?w)) (INDEX ?e) = Some ''<a href=/fonts/Cormorant Variable Font.woff2>''"
    by blast
  with i b show ?thesis by simp
qed

text \<open>
  The claim as stated fails for a write error: when the write of \<^verbatim>\<open>index.html\<close> fails after
  the file was opened and three bytes were written, the body throws, the step ends with
  status 0, and the document on disk is those three bytes.
\<close>

theorem write_error_truncates_html:
  "files (site_world [(''/site/assets/tailwind.css'', ''X''),
                      (''/site/index.html'', ''<link href=/assets/tailwind.css>'')])
      ''/site/index.html'' = Some ''<link href=/assets/tailwind.css>''
   \<and> snd (main_body (site_env (FailsAfterBytes 3))
        (site_world [(''/site/assets/tailwind.css'', ''X''),
                     (''/site/index.html'', ''<link href=/assets/tailwind.css>'')])) = Inl EIO
   \<and> files (fst (fingerprint_assets (site_env (FailsAfterBytes 3))
        (site_world [(''/site/assets/tailwind.css'', ''X''),
                     (''/site/index.html'', ''<link href=/assets/tailwind.css>'')])))
        ''/site/index.html'' = Some ''<li''
   \<and> snd (fingerprint_assets (site_env (FailsAfterBytes 3))
        (site_world [(''/site/assets/tailwind.css'', ''X''),
                     (''/site/index.html'', ''<link href=/assets/tailwind.css>'')])) = 0"
proof -
  let ?e = "site_env (FailsAfterBytes 3)"
  let ?w = "site_world [(''/site/assets/tailwind.css'', ''X''),
                     (''/site/index.html'', ''<link href=/assets/tailwind.css>'')]"
  have b: "snd (main_body ?e ?w) = Inl EIO"
    "files (fst (main_body ?e ?w)) ''/site/index.html'' = Some ''<li''"
    by (simp_all add: main_body_def Let_def eval_paths eval_fs eval_rewrite replicate_numeral)
  have i: "files ?w ''/site/index.html'' = Some ''<link href=/assets/tailwind.css>''"
    by (simp add: site_world_def)
  show ?thesis
    using b i exit_status_zero[of ?e ?w] by (simp add: fingerprint_assets_world main_files)
qed

lemma hashed_paths_differ:
  assumes "ROOT e \<noteq> []" "hd (ROOT e) = CHR ''/''"
    and "f \<in> {cssFile e, fontRegular e, fontItalic e}" "g \<in> {cssFile e, fontRegular e, fontItalic e}"
  shows "hashed_path f h \<noteq> INDEX e"
    and "hashed_path f h = hashed_path g k \<Longrightarrow> f = g"
proof -
  note hp = hashed_asset_paths[OF assms(1,2)]
  note ap = asset_paths[OF assms(1,2)]
  have i: "hashed_path (cssFile e) h \<noteq> INDEX e" "hashed_path (fontRegular e) h \<noteq> INDEX e"
    "hashed_path (fontItalic e) h \<noteq> INDEX e"
    by (simp_all add: hp ap(4))
  with assms(3) show "hashed_path f h \<noteq> INDEX e" by blast
  have d: "hashed_path (cssFile e) h \<noteq> hashed_path (fontRegular e) k"
    "hashed_path (cssFile e) h \<noteq> hashed_path (fontItalic e) k"
    "hashed_path (fontRegular e) h \<noteq> hashed_path (fontItalic e) k"
    "hashed_path (fontRegular e) h \<noteq> hashed_path (cssFile e) k"
    "hashed_path (fontItalic e) h \<noteq> hashed_path (cssFile e) k"
    "hashed_path (fontItalic e) h \<noteq> hashed_path (fontRegular e) k"
    by (simp_all add: hp)
  show "f = g" if "hashed_path f h = hashed_path g k"
    using assms(3,4) that d by blast
qed

text \<open>
  C10. Nothing the body did is undone when it throws. Let the working directory be an
  absolute path, let the copy loop have run to its end, and let the body then throw:
  whatever the exception is (the read of a missing \<^verbatim>\<open>index.html\<close>, the \<^verbatim>\<open>TypeError\<close> of the
  path functions, a failed write). Then the step ends with status 0; apart from
  \<^verbatim>\<open>index.html\<close>, the disk is what the copy loop left; and every asset that exists has its
  hashed copy on disk when the step ends: the copy made in this run, or the file that
  was already there.
\<close>

theorem copies_survive_body_error:
  assumes "ROOT e \<noteq> []" "hd (ROOT e) = CHR ''/''"
    and "produce_copies e (filter (existsSync w) [cssFile e, fontRegular e, fontItalic e]) w Map.empty
           = (wc, Inr outs)"
    and "main_body e w = (w1, Inl err)"
  shows "snd (fingerprint_assets e w) = 0
       \<and> (\<forall>q. q \<noteq> INDEX e \<longrightarrow> files (fst (fingerprint_assets e w)) q = files wc q)
       \<and> (\<forall>f b. f \<in> {cssFile e, fontRegular e, fontItalic e} \<longrightarrow> files w f = Some b \<longrightarrow>
             files (fst (fingerprint_assets e w)) (hashed_path f (digest e b))
               = (case files w (hashed_path f (digest e b)) of None \<Rightarrow> Some b | Some old \<Rightarrow> Some old))"
proof -
  define found where "found = filter (existsSync w) [cssFile e, fontRegular e, fontItalic e]"
  have sub: "set found \<subseteq> {cssFile e, fontRegular e, fontItalic e}"
    unfolding found_def by auto
  have ex: "\<forall>g\<in>set found. files w g \<noteq> None"
    unfolding found_def by (rule found_exist)
  have pc: "produce_copies e found w Map.empty = (wc, Inr outs)"
    using assms(3) unfolding found_def .
  from assms(4) have ns: "SKIP_FINGERPRINT e \<noteq> Some ''1''" and ne: "found \<noteq> []"
    unfolding found_def by (auto simp: main_body_def Let_def split: if_splits)
  from produce_copies_total[OF ex, where e=e and out=Map.empty] pc have
    keep: "\<forall>q c. files w q = Some c \<longrightarrow> files wc q = Some c"
    and new: "\<forall>q c. files wc q = Some c \<longrightarrow>
            files w q = Some c \<or> (\<exists>f\<in>set found. files w f = Some c \<and> q = hashed_path f (digest e c))"
    and outs: "\<forall>f\<in>set found. \<forall>b. files w f = Some b \<longrightarrow>
            outs f = Some (hashed_path f (digest e b)) \<and> files wc (hashed_path f (digest e b)) \<noteq> None"
    by auto
  have body: "main_body e w =
      (case readFileSync wc (INDEX e) of
         Inl err \<Rightarrow> (wc, Inl err)
       | Inr html \<Rightarrow>
           (case rewrite_references e outs html of
              Inl err \<Rightarrow> (wc, Inl err)
            | Inr html' \<Rightarrow>
                (case writeFileSync (index_write e) wc (INDEX e) html' of
                   (w2, Inl err) \<Rightarrow> (w2, Inl err)
                 | (w2, Inr _) \<Rightarrow> (log w2 ''Rewrote asset URLs in index.html'', Inr ()))))"
    unfolding main_body_def Let_def found_def[symmetric] using ns ne pc by simp
  have same: "files w1 q = files wc q" if "q \<noteq> INDEX e" for q
    using assms(4) that unfolding body
    by (auto simp: writeFileSync_def split: sum.splits write_outcome.splits)
  have fin: "files (fst (fingerprint_assets e w)) = files w1"
    using assms(4) by (simp add: fingerprint_assets_world main_files)
  have copy: "files wc (hashed_path f (digest e b))
        = (case files w (hashed_path f (digest e b)) of None \<Rightarrow> Some b | Some old \<Rightarrow> Some old)"
    if f: "f \<in> {cssFile e, fontRegular e, fontItalic e}" "files w f = Some b" for f b
  proof (cases "files w (hashed_path f (digest e b))")
    case (Some old)
    with keep show ?thesis by simp
  next
    case None
    let ?hp = "hashed_path f (digest e b)"
    have "f \<in> set found" using f unfolding found_def by (auto simp: existsSync_def)
    with outs f(2) obtain c where c: "files wc ?hp = Some c" by blast
    from new c have "files w ?hp = Some c
        \<or> (\<exists>g\<in>set found. files w g = Some c \<and> ?hp = hashed_path g (digest e c))" by blast
    with None obtain g where g: "g \<in> set found" "files w g = Some c" "?hp = hashed_path g (digest e c)"
      by auto
    from g(1) sub have "g \<in> {cssFile e, fontRegular e, fontItalic e}" by blast
    from hashed_paths_differ(2)[OF assms(1,2) f(1) this g(3)] have "f = g" .
    with g(2) f(2) have "c = b" by simp
    with c None show ?thesis by simp
  qed
  have "files (fst (fingerprint_assets e w)) (hashed_path f (digest e b))
        = (case files w (hashed_path f (digest e b)) of None \<Rightarrow> Some b | Some old \<Rightarrow> Some old)"
    if f: "f \<in> {cssFile e, fontRegular e, fontItalic e}" "files w f = Some b" for f b
    using copy[OF f] same[OF hashed_paths_differ(1)[OF assms(1,2) f(1) f(1)]] fin by simp
  then show ?thesis using exit_status_zero[of e w] same fin by simp
qed

theorem copies_survive_body_error_witness:
  "ROOT (site_env WriteOk) \<noteq> [] \<and> hd (ROOT (site_env WriteOk)) = CHR ''/''
   \<and> (\<exists>wc outs. produce_copies (site_env WriteOk)
          (filter (existsSync (site_world [(''/site/fonts/Cormorant Variable Font.woff2'', ''F''),
                                           (''/site/index.html'', ''<a href=/fonts/Cormorant Variable Font.woff2>'')]))
             [cssFile (site_env WriteOk), fontRegular (site_env WriteOk), fontItalic (site_env WriteOk)])
          (site_world [(''/site/fonts/Cormorant Variable Font.woff2'', ''F''),
                       (''/site/index.html'', ''<a href=/fonts/Cormorant Variable Font.woff2>'')]) Map.empty
        = (wc, Inr outs))
   \<and> snd (main_body (site_env WriteOk)
        (site_world [(''/site/fonts/Cormorant Variable Font.woff2'', ''F''),
                     (''/site/index.html'', ''<a href=/fonts/Cormorant Variable Font.woff2>'')])) = Inl TypeError
   \<and> files (site_world [(''/site/fonts/Cormorant Variable Font.woff2'', ''F''),
                        (''/site/index.html'', ''<a href=/fonts/Cormorant Variable Font.woff2>'')])
        ''/site/fonts/Cormorant Variable Font.aaaaaaaaaa.woff2'' = None
   \<and> files (fst (fingerprint_assets (site_env WriteOk)
        (site_world [(''/site/fonts/Cormorant Variable Font.woff2'', ''F''),
                     (''/site/index.html'', ''<a href=/fonts/Cormorant Variable Font.woff2>'')])))
        ''/site/fonts/Cormorant Variable Font.aaaaaaaaaa.woff2'' = Some ''F''
   \<and> snd (fingerprint_assets (site_env WriteOk)
        (site_world [(''/site/fonts/Cormorant Variable Font.woff2'', ''F''),
                     (''/site/index.html'', ''<a href=/fonts/Cormorant Variable Font.woff2>'')])) = 0"
proof -
  let ?e = "site_env WriteOk"
  let ?w = "site_world [(''/site/fonts/Cormorant Variable Font.woff2'', ''F''),
                        (''/site/index.html'', ''<a href=/fonts/Cormorant Variable Font.woff2>'')]"
  let ?found = "filter (existsSync ?w) [cssFile ?e, fontRegular ?e, fontItalic ?e]"
  have r: "ROOT ?e \<noteq> []" "hd (ROOT ?e) = CHR ''/''"
    by (simp_all add: site_env_def)
  have p: "fontRegular ?e = ''/site/fonts/Cormorant Variable Font.woff2''"
    "hashed_path ''/site/fonts/Cormorant Variable Font.woff2'' (digest ?e ''F'')
       = ''/site/fonts/Cormorant Variable Font.aaaaaaaaaa.woff2''"
    by (simp_all add: eval_paths eval_fs digest_def replicate_numeral)
  have f: "files ?w (fontRegular ?e) = Some ''F''"
    "files ?w ''/site/fonts/Cormorant Variable Font.aaaaaaaaaa.woff2'' = None"
    by (simp_all add: p site_world_def)
  from produce_copies_total[OF found_exist, where e="?e" and out=Map.empty and w="?w"]
  obtain wc outs where pc: "produce_copies ?e ?found ?w Map.empty = (wc, Inr outs)"
    by blast
  have b: "snd (main_body ?e ?w) = Inl TypeError"
    by (simp add: main_body_def Let_def eval_paths eval_fs eval_rewrite replicate_numeral)
  then obtain w1 where b1: "main_body ?e ?w = (w1, Inl TypeError)"
    by (cases "main_body ?e ?w") auto
  have m: "fontRegular ?e \<in> {cssFile ?e, fontRegular ?e, fontItalic ?e}" by simp
  from copies_survive_body_error[OF r pc b1] m f(1)
  have "files (fst (fingerprint_assets ?e ?w)) (hashed_path (fontRegular ?e) (digest ?e ''F''))
            = (case files ?w (hashed_path (fontRegular ?e) (digest ?e ''F'')) of None \<Rightarrow> Some ''F'' | Some old \<Rightarrow> Some old)
        \<and> snd (fingerprint_assets ?e ?w) = 0"
    by blast
  then have "files (fst (fingerprint_assets ?e ?w)) ''/site/fonts/Cormorant Variable Font.aaaaaaaaaa.woff2'' = Some ''F''
        \<and> snd (fingerprint_assets ?e ?w) = 0"
    using f(2) by (simp add: p)
  with r f(2) b pc show ?thesis by blast
qed



section \<open>Properties of the Glyph Extractor\<close>

subsection \<open>Markup stripping\<close>




lemma canon_lt [simp]: "canon u = 0x3C \<longleftrightarrow> u = 0x3C" "0x3C = canon u \<longleftrightarrow> u = 0x3C"
  "canon 0x3C = 0x3C"
  unfolding canon_def by (auto; unat_arith)+





















lemmas eval_html =
  html_text_def decode_entities_def strip_tags_def strip_style_def strip_script_def
  match_element_def match_tag_def match_lit_def ascii_def prefix_ci_def canon_def




subsection \<open>The glyph set\<close>

lemma set_set_elements: "set (set_elements xs) = set xs"
  by (simp add: set_elements_def)

lemma extract_units:
  assumes "readText f = Some html"
  shows "\<exists>chars. extractCharsFromHTML readText f = Inr chars
           \<and> set chars = (\<lambda>u. [u]) ` (set (html_text html) \<union> set base \<union> set extras)"
  using assms by (auto simp: extractCharsFromHTML_def set_set_elements)

lemma codepoints_of_units:
  assumes "set chars \<subseteq> range (\<lambda>u. [u])"
  shows "those (map codePointAt0 chars) = Some (map (\<lambda>s. unat (hd s)) chars)"
  using assms
proof (induction chars)
  case Nil
  then show ?case by simp
next
  case (Cons c chars)
  then obtain u where "c = [u]" by auto
  with Cons show ?case by (simp add: codePointAt0_def)
qed

lemma units_only_below_65536:
  assumes "set chars \<subseteq> range (\<lambda>u. [u])"
  shows "\<exists>arg. charsToUnicodeArg chars = Inr arg
           \<and> decode_unicodes arg = (\<lambda>s. unat (hd s)) ` set chars
           \<and> (\<forall>cp\<in>decode_unicodes arg. cp < 0x10000)"
proof -
  let ?cps = "map (\<lambda>s. unat (hd s)) chars"
  have run: "charsToUnicodeArg chars = Inr (join '','' (map fmt_range (merge_ranges (sort ?cps))))"
    using codepoints_of_units[OF assms] by (simp add: charsToUnicodeArg_def)
  have dec: "decode_unicodes (join '','' (map fmt_range (merge_ranges (sort ?cps)))) = set ?cps"
    by (simp add: decode_join cover_merge_ranges)
  have "unat (w :: 16 word) < 0x10000" for w
    using unsigned_less[of w] by simp
  with run dec show ?thesis by auto
qed


text \<open>
  C6 at an input that breaks it. For the page \<^verbatim>\<open><p>\<close>U+1F600\<^verbatim>\<open></p>\<close> the visible text holds
  the character U+1F600, written as the surrogate pair D83D DE00. \<^verbatim>\<open>split('')\<close> cuts
  the pair: the returned array holds the two surrogates as separate one-unit strings and
  not the character, and the codepoint specification made from it covers D83D and DE00 and
  not 1F600.
\<close>

theorem surrogate_pair_split_in_glyph_set:
  "html_text (ascii ''<p>'' @ [0xD83D, 0xDE00] @ ascii ''</p>'') = [0x20, 0xD83D, 0xDE00, 0x20]
   \<and> characters [0x20, 0xD83D, 0xDE00, 0x20] = [[0x20], [0xD83D, 0xDE00], [0x20]]
   \<and> codePointAt0 [0xD83D, 0xDE00] = Some 0x1F600
   \<and> (\<exists>chars arg.
         extractCharsFromHTML (\<lambda>file. Some (ascii ''<p>'' @ [0xD83D, 0xDE00] @ ascii ''</p>'')) ''index.html''
           = Inr chars
       \<and> [0xD83D, 0xDE00] \<notin> set chars \<and> [0xD83D] \<in> set chars \<and> [0xDE00] \<in> set chars
       \<and> charsToUnicodeArg chars = Inr arg
       \<and> 0x1F600 \<notin> decode_unicodes arg \<and> 0xD83D \<in> decode_unicodes arg \<and> 0xDE00 \<in> decode_unicodes arg)"
proof -
  define html where "html = ascii ''<p>'' @ [0xD83D, 0xDE00] @ ascii ''</p>''"
  have t: "html_text html = [0x20, 0xD83D, 0xDE00, 0x20]"
    unfolding html_def by (simp add: eval_html)
  have c: "characters [0x20, 0xD83D, 0xDE00, 0x20] = [[0x20], [0xD83D, 0xDE00], [0x20]]"
    by simp
  have p: "codePointAt0 [0xD83D, 0xDE00] = Some 0x1F600"
    by (simp add: codePointAt0_def)
  from extract_units[of "\<lambda>file. Some html" "''index.html''" html] obtain chars where
    chars: "extractCharsFromHTML (\<lambda>file. Some html) ''index.html'' = Inr chars"
      "set chars = (\<lambda>u. [u]) ` (set (html_text html) \<union> set base \<union> set extras)"
    by auto
  have units: "set chars \<subseteq> range (\<lambda>u. [u])" using chars(2) by auto
  from units_only_below_65536[OF units] obtain arg where
    arg: "charsToUnicodeArg chars = Inr arg"
      "decode_unicodes arg = (\<lambda>s. unat (hd s)) ` set chars"
      "\<forall>cp\<in>decode_unicodes arg. cp < 0x10000"
    by auto
  have m: "[0xD83D, 0xDE00] \<notin> set chars" "[0xD83D] \<in> set chars" "[0xDE00] \<in> set chars"
    unfolding chars(2) t by auto
  have "unat (hd [0xD83D :: 16 word]) \<in> decode_unicodes arg" "unat (hd [0xDE00 :: 16 word]) \<in> decode_unicodes arg"
    using m(2,3) unfolding arg(2) by (blast intro: imageI)+
  then have d: "0xD83D \<in> decode_unicodes arg" "0xDE00 \<in> decode_unicodes arg" by simp_all
  have n: "0x1F600 \<notin> decode_unicodes arg" using arg(3) by auto
  have "\<exists>chars arg. extractCharsFromHTML (\<lambda>file. Some html) ''index.html'' = Inr chars
       \<and> [0xD83D, 0xDE00] \<notin> set chars \<and> [0xD83D] \<in> set chars \<and> [0xDE00] \<in> set chars
       \<and> charsToUnicodeArg chars = Inr arg
       \<and> 0x1F600 \<notin> decode_unicodes arg \<and> 0xD83D \<in> decode_unicodes arg \<and> 0xDE00 \<in> decode_unicodes arg"
    using chars(1) m arg(1) d n by blast
  with t c p show ?thesis unfolding html_def by blast
qed

theorem surrogate_pair_split_in_glyph_set_witness:
  "\<exists>chars. extractCharsFromHTML (\<lambda>file. Some (ascii ''<p>'' @ [0xD83D, 0xDE00] @ ascii ''</p>'')) ''index.html''
           = Inr chars
       \<and> [0xD83D, 0xDE00] \<notin> set chars"
  using surrogate_pair_split_in_glyph_set by blast


section \<open>Properties of the Reference Rewriter\<close>

subsection \<open>Occurrences of a word after a global replacement\<close>

lemma gsub_Some:
  assumes "M (c # cs) = Some n" "0 < n"
  shows "gsub M R (c # cs) = R @ gsub M R (drop n (c # cs))"
  using assms by (cases n) auto

lemma gsub_None: "M (c # cs) = None \<Longrightarrow> gsub M R (c # cs) = c # gsub M R cs"
  by simp

lemma tail_stays_prefix:
  assumes sane: "\<And>s n. M s = Some n \<Longrightarrow> 0 < n \<and> n \<le> length s"
    and T: "\<And>i. 0 < i \<Longrightarrow> i < length m \<Longrightarrow> drop i m \<parallel> R"
  shows "0 < i \<Longrightarrow> prefix (drop i m) (gsub M R s) \<Longrightarrow> prefix (drop i m) s"
proof (induction s arbitrary: i)
  case Nil
  have "M [] = None" using sane[of "[]"] by (cases "M []") auto
  with Nil show ?case by simp
next
  case (Cons c cs)
  show ?case
  proof (cases "drop i m = []")
    case True
    then show ?thesis by simp
  next
    case False
    then have il: "i < length m" by simp
    show ?thesis
    proof (cases "M (c # cs)")
      case None
      with Cons.prems(2) have p: "prefix (drop i m) (c # gsub M R cs)" by simp
      from False obtain d ds where d: "drop i m = d # ds" by (cases "drop i m") auto
      then have ds: "ds = drop (Suc i) m" by (metis drop_Suc list.sel(3) tl_drop)
      from p d have "d = c" "prefix (drop (Suc i) m) (gsub M R cs)" by (simp_all add: ds)
      with Cons.IH[of "Suc i"] have "prefix (drop (Suc i) m) cs" by simp
      with d ds \<open>d = c\<close> show ?thesis by simp
    next
      case (Some n)
      with sane have "0 < n" by blast
      from gsub_Some[where M=M and c=c and cs=cs and n=n and R=R, OF Some this] Cons.prems(2)
      have "prefix (drop i m) (R @ gsub M R (drop n (c # cs)))" by simp
      then have "prefix (drop i m) R \<or> prefix R (drop i m)"
        by (metis prefix_append prefixI)
      with T[OF Cons.prems(1) il] show ?thesis by (simp add: parallel_def)
    qed
  qed
qed

lemma gsub_occurrence:
  assumes sane: "\<And>s n. M s = Some n \<Longrightarrow> 0 < n \<and> n \<le> length s"
    and T: "\<And>i. 0 < i \<Longrightarrow> i < length m \<Longrightarrow> drop i m \<parallel> R"
    and ne: "m \<noteq> []"
  shows "gsub M R t = u @ m @ v \<Longrightarrow>
         (\<exists>a<length R. \<not> drop a R \<parallel> m) \<or> (\<exists>u' v'. t = u' @ m @ v' \<and> M (m @ v') = None)"
proof (induction t arbitrary: u rule: length_induct)
  case (1 t)
  show ?case
  proof (cases t)
    case Nil
    have "M [] = None" using sane[of "[]"] by (cases "M []") auto
    with Nil 1(2) ne show ?thesis by simp
  next
    case (Cons c cs)
    show ?thesis
    proof (cases "M (c # cs)")
      case None
      with 1(2) Cons have g: "c # gsub M R cs = u @ m @ v" by simp
      show ?thesis
      proof (cases u)
        case Nil
        from ne obtain d ds where d: "m = d # ds" by (cases m) auto
        with g Nil have dc: "d = c" and p: "prefix (drop 1 m) (gsub M R cs)" by auto
        from tail_stays_prefix[where M=M and m=m and R=R and i=1 and s=cs, OF sane T] p have "prefix (drop 1 m) cs" by simp
        then obtain v' where "cs = drop 1 m @ v'" by (auto simp: prefix_def)
        with d dc have "t = [] @ m @ v'" using Cons by simp
        moreover from this None Cons have "M (m @ v') = None" by simp
        ultimately show ?thesis by blast
      next
        case (Cons c' u')
        with g have "gsub M R cs = u' @ m @ v" by simp
        with 1(1) \<open>t = c # cs\<close>
        have "(\<exists>a<length R. \<not> drop a R \<parallel> m) \<or> (\<exists>u'' v'. cs = u'' @ m @ v' \<and> M (m @ v') = None)"
          by simp
        then show ?thesis
        proof
          assume "\<exists>a<length R. \<not> drop a R \<parallel> m"
          then show ?thesis ..
        next
          assume "\<exists>u'' v'. cs = u'' @ m @ v' \<and> M (m @ v') = None"
          then obtain u'' v' where "cs = u'' @ m @ v'" "M (m @ v') = None" by blast
          then have "t = (c # u'') @ m @ v'" using \<open>t = c # cs\<close> by simp
          with \<open>M (m @ v') = None\<close> show ?thesis by blast
        qed
      qed
    next
      case (Some n)
      with sane have n: "0 < n" "n \<le> length (c # cs)" by blast+
      from gsub_Some[where M=M and c=c and cs=cs and n=n and R=R, OF Some n(1)] 1(2) Cons
      have g: "R @ gsub M R (drop n t) = u @ m @ v" by simp
      show ?thesis
      proof (cases "length u < length R")
        case True
        from g have "drop (length u) (R @ gsub M R (drop n t)) = m @ v" by simp
        with True have "drop (length u) R @ gsub M R (drop n t) = m @ v" by simp
        then have "prefix (drop (length u) R) m \<or> prefix m (drop (length u) R)"
          by (metis append_eq_append_conv2 prefixI)
        with True show ?thesis by (auto simp: parallel_def)
      next
        case False
        then have "length R \<le> length u" by simp
        with g obtain u' where u': "u = R @ u'"
          by (metis append_eq_append_conv_if append_take_drop_id)
        with g have "gsub M R (drop n t) = u' @ m @ v" by simp
        moreover have "length (drop n t) < length t" using n Cons by simp
        ultimately have "(\<exists>a<length R. \<not> drop a R \<parallel> m)
            \<or> (\<exists>u'' v'. drop n t = u'' @ m @ v' \<and> M (m @ v') = None)"
          using 1(1) by blast
        then show ?thesis
        proof
          assume "\<exists>a<length R. \<not> drop a R \<parallel> m"
          then show ?thesis ..
        next
          assume "\<exists>u'' v'. drop n t = u'' @ m @ v' \<and> M (m @ v') = None"
          then obtain u'' v' where d: "drop n t = u'' @ m @ v'" "M (m @ v') = None" by blast
          have "t = (take n t @ u'') @ m @ v'"
            using d(1) by (metis append.assoc append_take_drop_id)
          with d(2) show ?thesis by blast
        qed
      qed
    qed
  qed
qed

lemma gsub_fixed:
  assumes sane: "\<And>s n. M s = Some n \<Longrightarrow> 0 < n \<and> n \<le> length s"
    and fixed: "\<And>u s n. t = u @ s \<Longrightarrow> M s = Some n \<Longrightarrow> take n s = R"
  shows "gsub M R t = t"
  using fixed
proof (induction t rule: length_induct)
  case (1 t)
  show ?case
  proof (cases t)
    case Nil
    have "M [] = None" using sane[of "[]"] by (cases "M []") auto
    with Nil show ?thesis by simp
  next
    case (Cons c cs)
    show ?thesis
    proof (cases "M (c # cs)")
      case None
      have "gsub M R cs = cs"
      proof (rule 1(1)[rule_format])
        show "length cs < length t" using Cons by simp
        fix u s n assume "cs = u @ s" "M s = Some n"
        with 1(2)[of "c # u" s n] Cons show "take n s = R" by simp
      qed
      with None Cons show ?thesis by simp
    next
      case (Some n)
      with sane have n: "0 < n" "n \<le> length (c # cs)" by blast+
      have tk: "take n t = R" using 1(2)[of "[]" t n] Some Cons by simp
      have "gsub M R (drop n t) = drop n t"
      proof (rule 1(1)[rule_format])
        show "length (drop n t) < length t" using n Cons by simp
        fix u s k assume "drop n t = u @ s" "M s = Some k"
        with 1(2)[of "take n t @ u" s k] show "take k s = R"
          by (metis append.assoc append_take_drop_id)
      qed
      with gsub_Some[where M=M and c=c and cs=cs and n=n and R=R, OF Some n(1)] Cons tk show ?thesis
        by (metis append_take_drop_id)
    qed
  qed
qed


subsection \<open>What the reference patterns match\<close>

lemma find_SomeD: "find P xs = Some x \<Longrightarrow> P x \<and> x \<in> set xs"
  by (induction xs) (auto split: if_splits)

lemma match_hash_group_Some:
  assumes "match_hash_group ext r = Some k"
  shows "\<exists>hx v. r = CHR ''.'' # hx @ ext @ v \<and> length hx = k \<and> list_all is_hex_lower hx
           \<and> 8 \<le> k \<and> k \<le> 12"
proof -
  from assms obtain r' where r: "r = CHR ''.'' # r'"
    and f: "find (\<lambda>k. k \<le> length r' \<and> list_all is_hex_lower (take k r') \<and> prefix ext (drop k r'))
              [12, 11, 10, 9, 8] = Some k"
    by (auto simp: match_hash_group_def split: list.splits if_splits)
  from find_SomeD[OF f] have k: "k \<le> length r'" "list_all is_hex_lower (take k r')"
    "prefix ext (drop k r')" "k \<in> set [12, 11, 10, 9, 8]" by auto
  from k(3) obtain v where "drop k r' = ext @ v" by (auto simp: prefix_def)
  then have "r' = take k r' @ ext @ v" by (metis append_take_drop_id)
  with r k show ?thesis by (intro exI[of _ "take k r'"] exI[of _ v]) auto
qed

lemma match_ref_Some:
  assumes "match_ref pre ext s = Some n"
  shows "\<exists>rest v. s = pre @ rest @ v \<and> n = length (pre @ rest)
           \<and> (rest = ext \<or> (\<exists>hx. rest = CHR ''.'' # hx @ ext \<and> list_all is_hex_lower hx
                                \<and> 8 \<le> length hx \<and> length hx \<le> 12))"
proof -
  from assms have p: "prefix pre s" by (auto simp: match_ref_def split: if_splits)
  then obtain r where s: "s = pre @ r" by (auto simp: prefix_def)
  show ?thesis
  proof (cases "match_hash_group ext r")
    case None
    with assms s have "prefix ext r" "n = length pre + length ext"
      by (auto simp: match_ref_def split: if_splits)
    then obtain v where "r = ext @ v" by (auto simp: prefix_def)
    with s \<open>n = length pre + length ext\<close> show ?thesis
      by (intro exI[of _ ext] exI[of _ v]) simp
  next
    case (Some k)
    from match_hash_group_Some[OF Some] obtain hx v where
      h: "r = CHR ''.'' # hx @ ext @ v" "length hx = k" "list_all is_hex_lower hx" "8 \<le> k" "k \<le> 12"
      by blast
    from assms s Some have "n = length pre + 1 + k + length ext"
      by (auto simp: match_ref_def)
    with s h show ?thesis
      by (intro exI[of _ "CHR ''.'' # hx @ ext"] exI[of _ v]) auto
  qed
qed

lemma match_ref_sane:
  "match_ref pre ext s = Some n \<Longrightarrow> ext \<noteq> [] \<Longrightarrow> 0 < n \<and> n \<le> length s"
  using match_ref_Some[of pre ext s n] by auto


lemma find_unique:
  assumes "x \<in> set xs" "P x" "\<And>y. y \<in> set xs \<Longrightarrow> P y \<Longrightarrow> y = x"
  shows "find P xs = Some x"
proof -
  from assms(1,2) have "find P xs \<noteq> None" by (auto simp: find_None_iff)
  then obtain y where y: "find P xs = Some y" by auto
  then have "P y" "y \<in> set xs" by (auto simp: find_Some_iff)
  with assms(3) y show ?thesis by auto
qed

lemma dot_not_hex: "\<not> is_hex_lower (CHR ''.'')"
  by (simp add: is_hex_lower_def)

lemma hex_take_mono:
  "list_all is_hex_lower (take k x) \<Longrightarrow> j \<le> k \<Longrightarrow> list_all is_hex_lower (take j x)"
  by (metis append_take_drop_id list_all_append min.absorb1 take_take)

lemma match_hash_group_dot:
  "match_hash_group ext (CHR ''.'' # r') =
     find (\<lambda>k. k \<le> length r' \<and> list_all is_hex_lower (take k r') \<and> prefix ext (drop k r'))
       [12, 11, 10, 9, 8]"
  by (simp add: match_hash_group_def del: find.simps)

lemma match_hash_group_none:
  assumes "\<not> list_all is_hex_lower (take 8 e)"
  shows "match_hash_group (CHR ''.'' # e) (CHR ''.'' # e @ v) = None"
proof -
  have "\<not> list_all is_hex_lower (take k (e @ v))" if "8 \<le> k" for k
  proof
    assume "list_all is_hex_lower (take k (e @ v))"
    from hex_take_mono[OF this that] have "list_all is_hex_lower (take 8 (e @ v))" .
    then have "list_all is_hex_lower (take 8 e)" by simp
    with assms show False by simp
  qed
  then have "\<not> (\<exists>k. k \<in> set [12, 11, 10, 9, 8] \<and>
      (k \<le> length (e @ v) \<and> list_all is_hex_lower (take k (e @ v)) \<and> prefix (CHR ''.'' # e) (drop k (e @ v))))"
    by auto
  then show ?thesis
    unfolding match_hash_group_dot find_None_iff .
qed

lemma match_hash_group_exact:
  assumes "list_all is_hex_lower hx" "8 \<le> length hx" "length hx \<le> 12"
  shows "match_hash_group (CHR ''.'' # e) (CHR ''.'' # hx @ (CHR ''.'' # e) @ v) = Some (length hx)"
proof -
  let ?r = "hx @ (CHR ''.'' # e) @ v"
  let ?P = "\<lambda>k. k \<le> length ?r \<and> list_all is_hex_lower (take k ?r) \<and> prefix (CHR ''.'' # e) (drop k ?r)"
  have mem: "length hx \<in> set [12, 11, 10, 9, 8]" using assms(2,3) by auto
  have P: "?P (length hx)" using assms(1) by simp
  have uniq: "k = length hx" if "?P k" for k
  proof (rule ccontr)
    assume "k \<noteq> length hx"
    then consider "k < length hx" | "length hx < k" by linarith
    then show False
    proof cases
      case 1
      then have "drop k ?r = hx ! k # drop (Suc k) hx @ (CHR ''.'' # e) @ v"
        by (simp add: Cons_nth_drop_Suc)
      with that have "hx ! k = CHR ''.''" by simp
      moreover have "is_hex_lower (hx ! k)" using assms(1) 1 by (simp add: list_all_length)
      ultimately show False using dot_not_hex by simp
    next
      case 2
      from that have "list_all is_hex_lower (take k ?r)" by simp
      from hex_take_mono[OF this, of "Suc (length hx)"] 2
      have "list_all is_hex_lower (take (Suc (length hx)) ?r)" by simp
      then show False using dot_not_hex by simp
    qed
  qed
  have "find ?P [12, 11, 10, 9, 8] = Some (length hx)"
    using mem P uniq by (rule find_unique)
  then show ?thesis unfolding match_hash_group_dot .
qed

lemma match_ref_word:
  assumes "\<not> list_all is_hex_lower (take 8 e)"
    and "rest = CHR ''.'' # e \<or> (\<exists>hx. rest = CHR ''.'' # hx @ CHR ''.'' # e \<and> list_all is_hex_lower hx
                                \<and> 8 \<le> length hx \<and> length hx \<le> 12)"
  shows "match_ref pre (CHR ''.'' # e) (pre @ rest @ v) = Some (length (pre @ rest))"
  using assms(2)
proof
  assume "rest = CHR ''.'' # e"
  then show ?thesis
    using match_hash_group_none[OF assms(1), of v] by (simp add: match_ref_def)
next
  assume "\<exists>hx. rest = CHR ''.'' # hx @ CHR ''.'' # e \<and> list_all is_hex_lower hx
                                \<and> 8 \<le> length hx \<and> length hx \<le> 12"
  then obtain hx where h: "rest = CHR ''.'' # hx @ CHR ''.'' # e" "list_all is_hex_lower hx"
    "8 \<le> length hx" "length hx \<le> 12" by blast
  from match_hash_group_exact[OF h(2,3,4), of e v] h(1) show ?thesis
    by (simp add: match_ref_def)
qed


subsection \<open>The stylesheet's path is computed outside its guard\<close>

text \<open>
  C2 at the inputs that break it. \<^verbatim>\<open>toWeb(outputs[cssFile])\<close> is evaluated before the test
  \<^verbatim>\<open>if (outputs[cssFile])\<close>: without an entry for the stylesheet the rewriting throws, whatever
  the document is. So when \<^verbatim>\<open>tailwind.css\<close> is absent and a font exists, the body makes the
  font's hashed copy and throws a \<^verbatim>\<open>TypeError\<close>, and \<^verbatim>\<open>index.html\<close> keeps every reference
  it had: no occurrence of the font's path is replaced.
\<close>

theorem missing_stylesheet_blocks_rewrite:
  assumes "SKIP_FINGERPRINT e \<noteq> Some ''1''" "files w (cssFile e) = None"
    and "f \<in> {fontRegular e, fontItalic e}" "files w f = Some b"
    and "files w (INDEX e) = Some html"
  shows "(\<forall>outputs t. outputs (cssFile e) = None \<longrightarrow> rewrite_references e outputs t = Inl TypeError)
       \<and> snd (main_body e w) = Inl TypeError
       \<and> files (fst (fingerprint_assets e w)) (INDEX e) = Some html
       \<and> files (fst (fingerprint_assets e w)) (hashed_path f (digest e b)) \<noteq> None"
proof -
  define found where "found = filter (existsSync w) [cssFile e, fontRegular e, fontItalic e]"
  have ex: "\<forall>g\<in>set found. files w g \<noteq> None"
    unfolding found_def by (rule found_exist)
  have fin: "f \<in> set found" using assms(3,4) unfolding found_def by (auto simp: existsSync_def)
  then have ne: "found \<noteq> []" by (metis empty_iff list.set(1))
  have css: "cssFile e \<notin> set found" using assms(2) ex by auto
  from produce_copies_total[OF ex, where e=e and out=Map.empty] obtain wc outs where
    pc: "produce_copies e found w Map.empty = (wc, Inr outs)"
    and keep: "\<forall>q c. files w q = Some c \<longrightarrow> files wc q = Some c"
    and outs: "\<forall>f\<in>set found. \<forall>b. files w f = Some b \<longrightarrow>
            outs f = Some (hashed_path f (digest e b)) \<and> files wc (hashed_path f (digest e b)) \<noteq> None"
    and other: "\<forall>f. f \<notin> set found \<longrightarrow> outs f = Map.empty f"
    by blast
  have rw: "rewrite_references e outputs t = Inl TypeError" if "outputs (cssFile e) = None" for outputs t
    using that by (simp add: rewrite_references_def toWeb_def)
  from other css have "outs (cssFile e) = None" by simp
  then have r: "rewrite_references e outs html = Inl TypeError" by (rule rw)
  from keep assms(5) have idx: "files wc (INDEX e) = Some html" by simp
  have body: "main_body e w = (wc, Inl TypeError)"
    unfolding main_body_def Let_def found_def[symmetric]
    using assms(1) ne pc idx r by (simp add: readFileSync_def)
  from outs fin assms(4) have copy: "files wc (hashed_path f (digest e b)) \<noteq> None" by blast
  have fin: "files (fst (fingerprint_assets e w)) = files wc"
    using body by (simp add: fingerprint_assets_world main_files)
  show ?thesis using rw body idx copy fin by simp
qed

theorem missing_stylesheet_blocks_rewrite_witness:
  "SKIP_FINGERPRINT (site_env WriteOk) \<noteq> Some ''1''
   \<and> files (site_world [(''/site/fonts/Cormorant Variable Font.woff2'', ''F''),
                        (''/site/index.html'', ''<link href=/fonts/Cormorant Variable Font.woff2>'')])
        (cssFile (site_env WriteOk)) = None
   \<and> files (site_world [(''/site/fonts/Cormorant Variable Font.woff2'', ''F''),
                        (''/site/index.html'', ''<link href=/fonts/Cormorant Variable Font.woff2>'')])
        (fontRegular (site_env WriteOk)) = Some ''F''
   \<and> files (site_world [(''/site/fonts/Cormorant Variable Font.woff2'', ''F''),
                        (''/site/index.html'', ''<link href=/fonts/Cormorant Variable Font.woff2>'')])
        (INDEX (site_env WriteOk)) = Some ''<link href=/fonts/Cormorant Variable Font.woff2>''
   \<and> files (fst (fingerprint_assets (site_env WriteOk)
        (site_world [(''/site/fonts/Cormorant Variable Font.woff2'', ''F''),
                     (''/site/index.html'', ''<link href=/fonts/Cormorant Variable Font.woff2>'')])))
        ''/site/index.html'' = Some ''<link href=/fonts/Cormorant Variable Font.woff2>''
   \<and> files (fst (fingerprint_assets (site_env WriteOk)
        (site_world [(''/site/fonts/Cormorant Variable Font.woff2'', ''F''),
                     (''/site/index.html'', ''<link href=/fonts/Cormorant Variable Font.woff2>'')])))
        ''/site/fonts/Cormorant Variable Font.aaaaaaaaaa.woff2'' \<noteq> None"
proof -
  let ?e = "site_env WriteOk"
  let ?w = "site_world [(''/site/fonts/Cormorant Variable Font.woff2'', ''F''),
                        (''/site/index.html'', ''<link href=/fonts/Cormorant Variable Font.woff2>'')]"
  have s: "SKIP_FINGERPRINT ?e \<noteq> Some ''1''" by (simp add: site_env_def)
  have p: "cssFile ?e = ''/site/assets/tailwind.css''"
    "fontRegular ?e = ''/site/fonts/Cormorant Variable Font.woff2''"
    "INDEX ?e = ''/site/index.html''"
    "hashed_path ''/site/fonts/Cormorant Variable Font.woff2'' (digest ?e ''F'')
       = ''/site/fonts/Cormorant Variable Font.aaaaaaaaaa.woff2''"
    by (simp_all add: eval_paths eval_fs digest_def replicate_numeral)
  have f: "files ?w (cssFile ?e) = None" "files ?w (fontRegular ?e) = Some ''F''"
    "files ?w (INDEX ?e) = Some ''<link href=/fonts/Cormorant Variable Font.woff2>''"
    by (simp_all add: p site_world_def)
  have m: "fontRegular ?e \<in> {fontRegular ?e, fontItalic ?e}" by simp
  from missing_stylesheet_blocks_rewrite[OF s f(1) m f(2) f(3)]
  have "files (fst (fingerprint_assets ?e ?w)) (INDEX ?e) = Some ''<link href=/fonts/Cormorant Variable Font.woff2>''
      \<and> files (fst (fingerprint_assets ?e ?w)) (hashed_path (fontRegular ?e) (digest ?e ''F'')) \<noteq> None"
    by blast
  then have "files (fst (fingerprint_assets ?e ?w)) ''/site/index.html'' = Some ''<link href=/fonts/Cormorant Variable Font.woff2>''
      \<and> files (fst (fingerprint_assets ?e ?w)) ''/site/fonts/Cormorant Variable Font.aaaaaaaaaa.woff2'' \<noteq> None"
    by (simp add: p)
  with s f show ?thesis by blast
qed


subsection \<open>Texts that a pass leaves as they are\<close>

lemma gsub_matches_only:
  assumes "\<And>s n. M s = Some n \<Longrightarrow> 0 < n \<and> n \<le> length s" "matches_only M R t"
  shows "gsub M R t = t"
  using assms(2) unfolding matches_only_def
  by (intro gsub_fixed[where M=M and R=R and t=t, OF assms(1)]) blast+

lemma matches_only_gsub:
  assumes sane: "\<And>s n. M s = Some n \<Longrightarrow> 0 < n \<and> n \<le> length s"
    and word: "\<And>s n. M' s = Some n \<Longrightarrow> take n s \<in> F \<and> n \<le> length s"
    and ne: "[] \<notin> F"
    and hit: "\<And>m v. m \<in> F \<Longrightarrow> M' (m @ v) = Some (length m)"
    and T: "\<And>m i. m \<in> F \<Longrightarrow> 0 < i \<Longrightarrow> i < length m \<Longrightarrow> drop i m \<parallel> R"
    and H: "\<And>m a. m \<in> F \<Longrightarrow> a < length R \<Longrightarrow> \<not> drop a R \<parallel> m \<Longrightarrow> m = R'"
    and before: "matches_only M' R' t \<or> M = M'"
  shows "matches_only M' R' (gsub M R t)"
  unfolding matches_only_def
proof (intro allI impI)
  fix u s n
  assume g: "gsub M R t = u @ s" and m: "M' s = Some n"
  define m' where "m' = take n s"
  from word[OF m] have mF: "m' \<in> F" and n: "n \<le> length s" by (simp_all add: m'_def)
  with ne have mne: "m' \<noteq> []" by auto
  have s: "s = m' @ drop n s" by (simp add: m'_def)
  with g have g': "gsub M R t = u @ m' @ drop n s" by simp
  from gsub_occurrence[where M=M and m=m' and R=R and t=t and u=u and v="drop n s", OF sane T[OF mF] mne g']
  consider a where "a < length R" "\<not> drop a R \<parallel> m'"
    | u' v' where "t = u' @ m' @ v'" "M (m' @ v') = None"
    by blast
  then show "take n s = R'"
  proof cases
    case 1
    from H[OF mF 1] show ?thesis by (simp add: m'_def)
  next
    case 2
    from hit[OF mF, of v'] have h: "M' (m' @ v') = Some (length m')" .
    from before show ?thesis
    proof
      assume "matches_only M' R' t"
      with 2(1) h have "take (length m') (m' @ v') = R'"
        unfolding matches_only_def by blast
      then have "m' = R'" by simp
      then show ?thesis unfolding m'_def .
    next
      assume "M = M'"
      with 2(2) h show ?thesis by simp
    qed
  qed
qed

lemma absent_gsub:
  assumes sane: "\<And>s n. M s = Some n \<Longrightarrow> 0 < n \<and> n \<le> length s"
    and ne: "E \<noteq> []"
    and T: "\<And>i. 0 < i \<Longrightarrow> i < length E \<Longrightarrow> drop i E \<parallel> R"
    and H: "\<And>a. a < length R \<Longrightarrow> drop a R \<parallel> E"
    and before: "\<not> occurs_in E t \<or> (\<forall>v. M (E @ v) \<noteq> None)"
  shows "\<not> occurs_in E (gsub M R t)"
proof
  assume "occurs_in E (gsub M R t)"
  then obtain u v where g: "gsub M R t = u @ E @ v" by (auto simp: occurs_in_def)
  from gsub_occurrence[where M=M and m=E and R=R and t=t and u=u and v=v, OF sane T ne g]
  consider a where "a < length R" "\<not> drop a R \<parallel> E"
    | u' v' where "t = u' @ E @ v'" "M (E @ v') = None"
    by blast
  then show False
  proof cases
    case 1
    with H show False by blast
  next
    case 2
    from 2(1) have "occurs_in E t" unfolding occurs_in_def by blast
    with before 2(2) show False by blast
  qed
qed

lemma str_includes_occurs: "str_includes t m \<longleftrightarrow> occurs_in m t"
proof (induction t)
  case Nil
  then show ?case by (auto simp: occurs_in_def)
next
  case (Cons c cs)
  have "occurs_in m (c # cs) \<longleftrightarrow> prefix m (c # cs) \<or> occurs_in m cs"
  proof
    assume "occurs_in m (c # cs)"
    then obtain u v where e: "c # cs = u @ m @ v" by (auto simp: occurs_in_def)
    show "prefix m (c # cs) \<or> occurs_in m cs"
    proof (cases u)
      case Nil
      with e show ?thesis by (auto simp: prefix_def)
    next
      case (Cons d u')
      with e have "cs = u' @ m @ v" by simp
      then show ?thesis by (auto simp: occurs_in_def)
    qed
  next
    assume "prefix m (c # cs) \<or> occurs_in m cs"
    then show "occurs_in m (c # cs)"
    proof
      assume "prefix m (c # cs)"
      then obtain v where "c # cs = [] @ m @ v" by (auto simp: prefix_def)
      then show ?thesis unfolding occurs_in_def by blast
    next
      assume "occurs_in m cs"
      then obtain u v where "cs = u @ m @ v" by (auto simp: occurs_in_def)
      then have "c # cs = (c # u) @ m @ v" by simp
      then show ?thesis unfolding occurs_in_def by blast
    qed
  qed
  with Cons show ?case by simp
qed

lemma match_lit_sane: "match_lit E s = Some n \<Longrightarrow> 0 < n \<and> n \<le> length s"
  by (auto simp: match_lit_def prefix_def split: if_splits)

lemma split_acc_ne: "split_acc sep acc s \<noteq> []"
  by (induction sep acc s rule: split_acc.induct) auto

lemma join_Cons_ne: "ys \<noteq> [] \<Longrightarrow> join R (x # ys) = x @ R @ join R ys"
  by (cases ys) auto

lemma join_split_acc:
  assumes "sep \<noteq> []"
  shows "join R (split_acc sep acc s) = rev acc @ gsub (match_lit sep) R s"
proof (induction s arbitrary: acc rule: length_induct)
  case (1 s)
  show ?case
  proof (cases s)
    case Nil
    with assms show ?thesis by (simp add: match_lit_def)
  next
    case (Cons c cs)
    show ?thesis
    proof (cases "prefix sep (c # cs)")
      case True
      with assms have m: "match_lit sep (c # cs) = Some (length sep)" by (simp add: match_lit_def)
      have l: "0 < length sep" using assms by simp
      have "length (drop (length sep - 1) cs) < length s" using Cons by simp
      with 1 have ih: "join R (split_acc sep [] (drop (length sep - 1) cs))
          = gsub (match_lit sep) R (drop (length sep - 1) cs)" by simp
      have "join R (split_acc sep acc (c # cs))
          = rev acc @ R @ join R (split_acc sep [] (drop (length sep - 1) cs))"
        using True assms by (simp add: join_Cons_ne split_acc_ne)
      with ih m l Cons show ?thesis by simp
    next
      case False
      then have m: "match_lit sep (c # cs) = None" by (simp add: match_lit_def)
      from 1 Cons have "join R (split_acc sep (c # acc) cs) = rev (c # acc) @ gsub (match_lit sep) R cs"
        by simp
      with False m Cons show ?thesis by simp
    qed
  qed
qed

lemma join_split_str:
  "sep \<noteq> [] \<Longrightarrow> join R (split_str sep t) = gsub (match_lit sep) R t"
  using join_split_acc[of sep R "[]" t] by (simp add: split_str_def)

subsection \<open>The words of the patterns\<close>

lemma hex_no_sep:
  assumes "list_all is_hex_lower hx"
  shows "CHR ''/'' \<notin> set hx" "CHR 0x5C \<notin> set hx" "CHR ''.'' \<notin> set hx"
proof -
  have "\<not> is_hex_lower (CHR ''/'')" "\<not> is_hex_lower (CHR 0x5C)" "\<not> is_hex_lower (CHR ''.'')"
    by (simp_all add: is_hex_lower_def)
  with assms show "CHR ''/'' \<notin> set hx" "CHR 0x5C \<notin> set hx" "CHR ''.'' \<notin> set hx"
    unfolding list_all_iff by blast+
qed

lemma match_ref_forms:
  assumes "match_ref pre ext s = Some n"
  shows "take n s \<in> ref_forms pre ext \<and> n \<le> length s"
proof -
  from match_ref_Some[OF assms] obtain rest v where
    r: "s = pre @ rest @ v" "n = length (pre @ rest)"
      "rest = ext \<or> (\<exists>hx. rest = CHR ''.'' # hx @ ext \<and> list_all is_hex_lower hx
                                \<and> 8 \<le> length hx \<and> length hx \<le> 12)"
    by blast
  from r(1,2) have "take n s = pre @ rest" by simp
  with r show ?thesis by (auto simp: ref_forms_def)
qed

lemma forms_match_ref:
  assumes "\<not> list_all is_hex_lower (take 8 e)" "m \<in> ref_forms pre (CHR ''.'' # e)"
  shows "match_ref pre (CHR ''.'' # e) (m @ v) = Some (length m)"
proof -
  from assms(2) obtain rest where r: "m = pre @ rest"
    "rest = CHR ''.'' # e \<or> (\<exists>hx. rest = CHR ''.'' # hx @ CHR ''.'' # e \<and> list_all is_hex_lower hx
                                \<and> 8 \<le> length hx \<and> length hx \<le> 12)"
    by (auto simp: ref_forms_def)
  from match_ref_word[OF assms(1) r(2), of pre v] r(1) show ?thesis by simp
qed

lemma forms_rest:
  assumes "m \<in> ref_forms pre (CHR ''.'' # e)" "e \<in> {''css'', ''woff2''}"
  shows "\<exists>rest. m = pre @ rest \<and> rest \<noteq> [] \<and> CHR ''/'' \<notin> set rest \<and> CHR 0x5C \<notin> set rest"
proof -
  have e: "CHR ''/'' \<notin> set (CHR ''.'' # e)" "CHR 0x5C \<notin> set (CHR ''.'' # e)"
    using assms(2) by auto
  from assms(1) consider "m = pre @ CHR ''.'' # e"
    | hx where "m = pre @ ''.'' @ hx @ CHR ''.'' # e" "list_all is_hex_lower hx"
    unfolding ref_forms_def by auto
  then show ?thesis
  proof cases
    case 1
    with e show ?thesis by blast
  next
    case 2
    from hex_no_sep[OF 2(2)] e have "CHR ''/'' \<notin> set (''.'' @ hx @ CHR ''.'' # e)"
      "CHR 0x5C \<notin> set (''.'' @ hx @ CHR ''.'' # e)" by auto
    with 2(1) show ?thesis by blast
  qed
qed

lemma comparable_nth:
  "\<not> xs \<parallel> ys \<Longrightarrow> i < length xs \<Longrightarrow> i < length ys \<Longrightarrow> xs ! i = ys ! i"
  by (auto simp: parallel_def prefix_def nth_append)

lemma tails_parallel:
  assumes R: "R \<noteq> []" "hd R = CHR ''/''"
    and rest: "CHR ''/'' \<notin> set rest"
    and tails: "\<And>i. 0 < i \<Longrightarrow> i < length p \<Longrightarrow> p ! i = CHR ''/'' \<Longrightarrow> drop i p @ rest \<parallel> R"
    and i: "0 < i" "i < length (p @ rest)"
  shows "drop i (p @ rest) \<parallel> R"
proof (rule ccontr)
  assume c: "\<not> drop i (p @ rest) \<parallel> R"
  define d where "d = drop i (p @ rest)"
  from i(2) have dl: "0 < length d" by (simp add: d_def)
  have "d ! 0 = (p @ rest) ! i" unfolding d_def using i(2) by (simp only: nth_drop less_imp_le add_0_right)
  moreover from comparable_nth[OF c[folded d_def] dl] R have "d ! 0 = CHR ''/''"
    by (simp add: hd_conv_nth)
  ultimately have at: "(p @ rest) ! i = CHR ''/''" by simp
  have il: "i < length p"
  proof (rule ccontr)
    assume "\<not> i < length p"
    with at i(2) have "rest ! (i - length p) = CHR ''/''" "i - length p < length rest"
      by (auto simp: nth_append)
    with rest show False by (metis nth_mem)
  qed
  with at have "p ! i = CHR ''/''" by (simp add: nth_append)
  from tails[OF i(1) il this] c il show False by simp
qed

lemma slash_positions:
  "0 < i \<Longrightarrow> i < length ''/assets/tailwind'' \<Longrightarrow> ''/assets/tailwind'' ! i = CHR ''/'' \<Longrightarrow> i = 7"
  "0 < i \<Longrightarrow> i < length ''/fonts/Cormorant Variable Font'' \<Longrightarrow>
     ''/fonts/Cormorant Variable Font'' ! i = CHR ''/'' \<Longrightarrow> i = 6"
  "0 < i \<Longrightarrow> i < length ''/fonts/Cormorant Italic Variable Font'' \<Longrightarrow>
     ''/fonts/Cormorant Italic Variable Font'' ! i = CHR ''/'' \<Longrightarrow> i = 6"
  by (simp_all add: nth_Cons' split: if_splits)

lemma slash_positions_escaped:
  "0 < i \<Longrightarrow> i < length (CHR 0x5C # ''/fonts'' @ CHR 0x5C # ''/Cormorant Variable Font'') \<Longrightarrow>
     (CHR 0x5C # ''/fonts'' @ CHR 0x5C # ''/Cormorant Variable Font'') ! i = CHR ''/'' \<Longrightarrow> i = 1 \<or> i = 8"
  "0 < i \<Longrightarrow> i < length (CHR 0x5C # ''/fonts'' @ CHR 0x5C # ''/Cormorant Italic Variable Font'') \<Longrightarrow>
     (CHR 0x5C # ''/fonts'' @ CHR 0x5C # ''/Cormorant Italic Variable Font'') ! i = CHR ''/'' \<Longrightarrow> i = 1 \<or> i = 8"
  by (simp_all add: nth_Cons' split: if_splits)

lemma tail_facts:
  "''/tailwind'' @ rest \<parallel> ''/assets/'' @ y"
  "''/tailwind'' @ rest \<parallel> ''/fonts/'' @ y"
  "''/Cormorant Variable Font'' @ rest \<parallel> ''/assets/'' @ y"
  "''/Cormorant Variable Font'' @ rest \<parallel> ''/fonts/'' @ y"
  "''/Cormorant Italic Variable Font'' @ rest \<parallel> ''/assets/'' @ y"
  "''/Cormorant Italic Variable Font'' @ rest \<parallel> ''/fonts/'' @ y"
  "(''/fonts'' @ CHR 0x5C # ''/Cormorant Variable Font'') @ rest \<parallel> ''/assets/'' @ y"
  "(''/fonts'' @ CHR 0x5C # ''/Cormorant Variable Font'') @ rest \<parallel> ''/fonts/'' @ y"
  "(''/fonts'' @ CHR 0x5C # ''/Cormorant Italic Variable Font'') @ rest \<parallel> ''/assets/'' @ y"
  "(''/fonts'' @ CHR 0x5C # ''/Cormorant Italic Variable Font'') @ rest \<parallel> ''/fonts/'' @ y"
  by (simp_all add: parallel_def)

text \<open>
  No proper tail of a word that starts with one of the prefixes of the patterns, plain or
  escaped, and has no further slash leads into a web path below \<^verbatim>\<open>/assets/\<close> or
  \<^verbatim>\<open>/fonts/\<close>.
\<close>

lemma web_path_head:
  assumes "prefix ''/assets/'' R \<or> prefix ''/fonts/'' R"
  shows "R \<noteq> []" "hd R = CHR ''/''"
  using assms by (auto simp: prefix_def)

lemma tails_css:
  assumes rest: "CHR ''/'' \<notin> set rest"
    and R: "prefix ''/assets/'' R \<or> prefix ''/fonts/'' R"
    and i: "0 < i" "i < length (''/assets/tailwind'' @ rest)"
  shows "drop i (''/assets/tailwind'' @ rest) \<parallel> R"
proof (rule tails_parallel[OF web_path_head[OF R] rest _ i])
  from R obtain y where y: "R = ''/assets/'' @ y \<or> R = ''/fonts/'' @ y" by (auto simp: prefix_def)
  fix j assume "0 < j" "j < length ''/assets/tailwind''" "''/assets/tailwind'' ! j = CHR ''/''"
  with slash_positions(1)[of j] have "j = 7" by blast
  then have "drop j ''/assets/tailwind'' = ''/tailwind''" by simp
  then show "drop j ''/assets/tailwind'' @ rest \<parallel> R"
    using y tail_facts(1,2)[of rest y] by (elim disjE) simp_all
qed

lemma tails_regular:
  assumes rest: "CHR ''/'' \<notin> set rest"
    and R: "prefix ''/assets/'' R \<or> prefix ''/fonts/'' R"
    and i: "0 < i" "i < length (''/fonts/Cormorant Variable Font'' @ rest)"
  shows "drop i (''/fonts/Cormorant Variable Font'' @ rest) \<parallel> R"
proof (rule tails_parallel[OF web_path_head[OF R] rest _ i])
  from R obtain y where y: "R = ''/assets/'' @ y \<or> R = ''/fonts/'' @ y" by (auto simp: prefix_def)
  fix j assume "0 < j" "j < length ''/fonts/Cormorant Variable Font''"
    "''/fonts/Cormorant Variable Font'' ! j = CHR ''/''"
  with slash_positions(2)[of j] have "j = 6" by blast
  then have "drop j ''/fonts/Cormorant Variable Font'' = ''/Cormorant Variable Font''" by simp
  then show "drop j ''/fonts/Cormorant Variable Font'' @ rest \<parallel> R"
    using y tail_facts(3,4)[of rest y] by (elim disjE) simp_all
qed

lemma tails_italic:
  assumes rest: "CHR ''/'' \<notin> set rest"
    and R: "prefix ''/assets/'' R \<or> prefix ''/fonts/'' R"
    and i: "0 < i" "i < length (''/fonts/Cormorant Italic Variable Font'' @ rest)"
  shows "drop i (''/fonts/Cormorant Italic Variable Font'' @ rest) \<parallel> R"
proof (rule tails_parallel[OF web_path_head[OF R] rest _ i])
  from R obtain y where y: "R = ''/assets/'' @ y \<or> R = ''/fonts/'' @ y" by (auto simp: prefix_def)
  fix j assume "0 < j" "j < length ''/fonts/Cormorant Italic Variable Font''"
    "''/fonts/Cormorant Italic Variable Font'' ! j = CHR ''/''"
  with slash_positions(3)[of j] have "j = 6" by blast
  then have "drop j ''/fonts/Cormorant Italic Variable Font'' = ''/Cormorant Italic Variable Font''" by simp
  then show "drop j ''/fonts/Cormorant Italic Variable Font'' @ rest \<parallel> R"
    using y tail_facts(5,6)[of rest y] by (elim disjE) simp_all
qed

lemma tails_regular_escaped:
  assumes rest: "CHR ''/'' \<notin> set rest"
    and R: "prefix ''/assets/'' R \<or> prefix ''/fonts/'' R"
    and i: "0 < i" "i < length ((CHR 0x5C # ''/fonts'' @ CHR 0x5C # ''/Cormorant Variable Font'') @ rest)"
  shows "drop i ((CHR 0x5C # ''/fonts'' @ CHR 0x5C # ''/Cormorant Variable Font'') @ rest) \<parallel> R"
proof (rule tails_parallel[OF web_path_head[OF R] rest _ i])
  from R obtain y where y: "R = ''/assets/'' @ y \<or> R = ''/fonts/'' @ y" by (auto simp: prefix_def)
  fix j assume "0 < j" "j < length (CHR 0x5C # ''/fonts'' @ CHR 0x5C # ''/Cormorant Variable Font'')"
    "(CHR 0x5C # ''/fonts'' @ CHR 0x5C # ''/Cormorant Variable Font'') ! j = CHR ''/''"
  with slash_positions_escaped(1)[of j] have "j = 1 \<or> j = 8" by blast
  then have "drop j (CHR 0x5C # ''/fonts'' @ CHR 0x5C # ''/Cormorant Variable Font'')
        = ''/fonts'' @ CHR 0x5C # ''/Cormorant Variable Font''
      \<or> drop j (CHR 0x5C # ''/fonts'' @ CHR 0x5C # ''/Cormorant Variable Font'')
        = ''/Cormorant Variable Font''"
    by (elim disjE) simp_all
  then show "drop j (CHR 0x5C # ''/fonts'' @ CHR 0x5C # ''/Cormorant Variable Font'') @ rest \<parallel> R"
    using y tail_facts(3,4,7,8)[of rest y] by (elim disjE) simp_all
qed

lemma tails_italic_escaped:
  assumes rest: "CHR ''/'' \<notin> set rest"
    and R: "prefix ''/assets/'' R \<or> prefix ''/fonts/'' R"
    and i: "0 < i" "i < length ((CHR 0x5C # ''/fonts'' @ CHR 0x5C # ''/Cormorant Italic Variable Font'') @ rest)"
  shows "drop i ((CHR 0x5C # ''/fonts'' @ CHR 0x5C # ''/Cormorant Italic Variable Font'') @ rest) \<parallel> R"
proof (rule tails_parallel[OF web_path_head[OF R] rest _ i])
  from R obtain y where y: "R = ''/assets/'' @ y \<or> R = ''/fonts/'' @ y" by (auto simp: prefix_def)
  fix j assume "0 < j" "j < length (CHR 0x5C # ''/fonts'' @ CHR 0x5C # ''/Cormorant Italic Variable Font'')"
    "(CHR 0x5C # ''/fonts'' @ CHR 0x5C # ''/Cormorant Italic Variable Font'') ! j = CHR ''/''"
  with slash_positions_escaped(2)[of j] have "j = 1 \<or> j = 8" by blast
  then have "drop j (CHR 0x5C # ''/fonts'' @ CHR 0x5C # ''/Cormorant Italic Variable Font'')
        = ''/fonts'' @ CHR 0x5C # ''/Cormorant Italic Variable Font''
      \<or> drop j (CHR 0x5C # ''/fonts'' @ CHR 0x5C # ''/Cormorant Italic Variable Font'')
        = ''/Cormorant Italic Variable Font''"
    by (elim disjE) simp_all
  then show "drop j (CHR 0x5C # ''/fonts'' @ CHR 0x5C # ''/Cormorant Italic Variable Font'') @ rest \<parallel> R"
    using y tail_facts(5,6,9,10)[of rest y] by (elim disjE) simp_all
qed

lemmas word_tails = tails_css tails_regular tails_italic tails_regular_escaped tails_italic_escaped

lemma parallelI_nth:
  "i < length xs \<Longrightarrow> i < length ys \<Longrightarrow> xs ! i \<noteq> ys ! i \<Longrightarrow> xs \<parallel> ys"
  using comparable_nth by blast

lemma forms_comparable:
  assumes ne: "\<not> list_all is_hex_lower (take 8 e)"
    and x: "x \<in> ref_forms pre (CHR ''.'' # e)" and y: "y \<in> ref_forms pre (CHR ''.'' # e)"
    and c: "\<not> x \<parallel> y"
  shows "x = y"
proof -
  have plain_hashed: False
    if "\<not> (pre @ CHR ''.'' # e) \<parallel> (pre @ CHR ''.'' # hx @ CHR ''.'' # e)"
      "list_all is_hex_lower hx" "8 \<le> length hx" for hx
  proof -
    from that(1) have "prefix e (hx @ CHR ''.'' # e) \<or> prefix (hx @ CHR ''.'' # e) e"
      by (simp add: parallel_def)
    then have "take 8 e = take 8 hx"
    proof
      assume "prefix e (hx @ CHR ''.'' # e)"
      then obtain z where z: "hx @ CHR ''.'' # e = e @ z" by (auto simp: prefix_def)
      have "take 8 (hx @ CHR ''.'' # e) = take 8 hx" using that(3) by simp
      moreover have "take 8 (take (length hx) (e @ z)) = take 8 (take (length hx) (hx @ CHR ''.'' # e))"
        using z by simp
      ultimately show ?thesis
      proof (cases "length e \<le> length hx")
        case True
        from z have "take (length e) (hx @ CHR ''.'' # e) = e" by simp
        with True have "e = take (length e) hx" by simp
        then have "list_all is_hex_lower e" using that(2)
          by (metis append_take_drop_id list_all_append)
        then have "list_all is_hex_lower (take 8 e)"
          by (metis append_take_drop_id list_all_append)
        with ne show ?thesis by simp
      next
        case False
        from z have "take (length hx) (e @ z) = hx" by (metis append_eq_conv_conj)
        with False have "take (length hx) e = hx" by simp
        then have "take 8 (take (length hx) e) = take 8 hx" by simp
        with that(3) show ?thesis by (simp add: min_def)
      qed
    next
      assume "prefix (hx @ CHR ''.'' # e) e"
      then obtain z where z: "e = hx @ CHR ''.'' # e @ z" by (auto simp: prefix_def)
      then have "length e = length hx + 1 + length e + length z" by (metis length_append length_Cons Suc_eq_plus1 add.assoc add.commute)
      then show ?thesis by simp
    qed
    with that(2) have "list_all is_hex_lower (take 8 e)"
      by (metis append_take_drop_id list_all_append)
    with ne show False by simp
  qed
  have hashed_hashed: "hx = hy"
    if "\<not> (pre @ CHR ''.'' # hx @ CHR ''.'' # e) \<parallel> (pre @ CHR ''.'' # hy @ CHR ''.'' # e)"
      "list_all is_hex_lower hx" "list_all is_hex_lower hy" "length hx \<le> length hy" for hx hy
  proof -
    from that(1) have n: "\<not> (hx @ CHR ''.'' # e) \<parallel> (hy @ CHR ''.'' # e)"
      by (simp add: parallel_def)
    have "length hx = length hy"
    proof (rule ccontr)
      assume "length hx \<noteq> length hy"
      with that(4) have l: "length hx < length hy" by simp
      from comparable_nth[OF n, of "length hx"] l
      have "(hy @ CHR ''.'' # e) ! length hx = CHR ''.''" by (simp add: nth_append)
      with l have "hy ! length hx = CHR ''.''" by (simp add: nth_append)
      moreover have "is_hex_lower (hy ! length hx)" using that(3) l by (simp add: list_all_length)
      ultimately show False using dot_not_hex by simp
    qed
    moreover from n have "prefix (hx @ CHR ''.'' # e) (hy @ CHR ''.'' # e) \<or> prefix (hy @ CHR ''.'' # e) (hx @ CHR ''.'' # e)"
      by (auto simp: parallel_def)
    ultimately show ?thesis by (auto simp: prefix_def)
  qed
  from x consider "x = pre @ CHR ''.'' # e"
    | hx where "x = pre @ CHR ''.'' # hx @ CHR ''.'' # e" "list_all is_hex_lower hx" "8 \<le> length hx"
    unfolding ref_forms_def by auto
  then show ?thesis
  proof cases
    case 1
    from y consider "y = pre @ CHR ''.'' # e"
      | hy where "y = pre @ CHR ''.'' # hy @ CHR ''.'' # e" "list_all is_hex_lower hy" "8 \<le> length hy"
      unfolding ref_forms_def by auto
    then show ?thesis
    proof cases
      case 1
      with \<open>x = pre @ CHR ''.'' # e\<close> show ?thesis by simp
    next
      case 2
      from plain_hashed[OF _ 2(2,3)] c 1 2(1) show ?thesis by simp
    qed
  next
    case 2
    note hx = 2
    from y consider "y = pre @ CHR ''.'' # e"
      | hy where "y = pre @ CHR ''.'' # hy @ CHR ''.'' # e" "list_all is_hex_lower hy" "8 \<le> length hy"
      unfolding ref_forms_def by auto
    then show ?thesis
    proof cases
      case 1
      from c have "\<not> y \<parallel> x" by (auto simp: parallel_def)
      from plain_hashed[OF _ hx(2,3)] this 1 hx(1) show ?thesis by simp
    next
      case 2
      show ?thesis
      proof (cases "length hx \<le> length hy")
        case True
        from hashed_hashed[OF _ hx(2) 2(2) True] c hx(1) 2(1) show ?thesis by simp
      next
        case False
        then have l: "length hy \<le> length hx" by simp
        from c have "\<not> y \<parallel> x" by (auto simp: parallel_def)
        from hashed_hashed[OF _ 2(2) hx(2) l] this hx(1) 2(1) show ?thesis by simp
      qed
    qed
  qed
qed

lemma prefixes_parallel:
  "''/assets/tailwind'' @ x \<parallel> ''/fonts/Cormorant Variable Font'' @ y"
  "''/assets/tailwind'' @ x \<parallel> ''/fonts/Cormorant Italic Variable Font'' @ y"
  "''/fonts/Cormorant Variable Font'' @ x \<parallel> ''/fonts/Cormorant Italic Variable Font'' @ y"
  "''/fonts/Cormorant Variable Font'' @ x \<parallel> ''/assets/tailwind'' @ y"
  "''/fonts/Cormorant Italic Variable Font'' @ x \<parallel> ''/assets/tailwind'' @ y"
  "''/fonts/Cormorant Italic Variable Font'' @ x \<parallel> ''/fonts/Cormorant Variable Font'' @ y"
  by (simp_all add: parallel_def)

lemma backslash_parallel:
  assumes "CHR 0x5C \<notin> set R" "E \<noteq> []" "hd E = CHR 0x5C" "a < length R"
  shows "drop a R \<parallel> E"
proof (rule parallelI_nth[of 0])
  show "0 < length (drop a R)" using assms(4) by simp
  show "0 < length E" using assms(2) by simp
  have "drop a R ! 0 = R ! a" using assms(4) by (simp only: nth_drop less_imp_le add_0_right)
  moreover have "R ! a \<in> set R" using assms(4) by simp
  moreover have "E ! 0 = CHR 0x5C" using assms(2,3) by (simp add: hd_conv_nth)
  ultimately show "drop a R ! 0 \<noteq> E ! 0" using assms(1) by metis
qed

lemma gsub_lit1_append:
  "gsub (match_lit [c]) r (xs @ ys) = gsub (match_lit [c]) r xs @ gsub (match_lit [c]) r ys"
proof (induction xs)
  case Nil
  have "gsub (match_lit [c]) r [] = []" by (simp add: match_lit_def)
  then show ?case by simp
next
  case (Cons x xs)
  show ?case
  proof (cases "x = c")
    case True
    have m: "match_lit [c] (x # zs) = Some 1" for zs using True by (simp add: match_lit_def)
    have "gsub (match_lit [c]) r (x # zs) = r @ gsub (match_lit [c]) r zs" for zs
      using gsub_Some[where M="match_lit [c]" and R=r, OF m[of zs]] by simp
    with Cons show ?thesis by simp
  next
    case False
    have m: "match_lit [c] (x # zs) = None" for zs using False by (simp add: match_lit_def)
    have "gsub (match_lit [c]) r (x # zs) = x # gsub (match_lit [c]) r zs" for zs
      using gsub_None[where M="match_lit [c]" and R=r, OF m[of zs]] by simp
    with Cons show ?thesis by simp
  qed
qed

lemma gsub_lit1_id: "c \<notin> set xs \<Longrightarrow> gsub (match_lit [c]) r xs = xs"
  by (induction xs) (simp_all add: match_lit_def)

subsection \<open>The hashed web paths and their escaped forms\<close>

lemma web_paths:
  assumes "ROOT e \<noteq> []" "hd (ROOT e) = CHR ''/''" "list_all is_hex_lower h"
  shows "toWeb e (Some (hashed_path (cssFile e) h)) = Inr (''/assets/tailwind'' @ ''.'' @ h @ ''.css'')"
    and "toWeb e (Some (hashed_path (fontRegular e) h))
           = Inr (''/fonts/Cormorant Variable Font'' @ ''.'' @ h @ ''.woff2'')"
    and "toWeb e (Some (hashed_path (fontItalic e) h))
           = Inr (''/fonts/Cormorant Italic Variable Font'' @ ''.'' @ h @ ''.woff2'')"
proof -
  note hp = hashed_asset_paths[OF assms(1,2)]
  from hex_no_sep(1)[OF assms(3)] have n: "CHR ''/'' \<notin> set (''tailwind.'' @ h @ ''.css'')"
    "CHR ''/'' \<notin> set (''Cormorant Variable Font.'' @ h @ ''.woff2'')"
    "CHR ''/'' \<notin> set (''Cormorant Italic Variable Font.'' @ h @ ''.woff2'')"
    by simp_all
  have a: "CHR ''/'' \<notin> set ''assets''" "CHR ''/'' \<notin> set ''fonts''" "''assets'' \<noteq> []" "''fonts'' \<noteq> []"
    by simp_all
  from toWeb_below_root[OF assms(1) a(1) n(1) a(3)]
  show "toWeb e (Some (hashed_path (cssFile e) h)) = Inr (''/assets/tailwind'' @ ''.'' @ h @ ''.css'')"
    by (simp add: hp)
  from toWeb_below_root[OF assms(1) a(2) n(2) a(4)]
  show "toWeb e (Some (hashed_path (fontRegular e) h))
           = Inr (''/fonts/Cormorant Variable Font'' @ ''.'' @ h @ ''.woff2'')"
    by (simp add: hp)
  from toWeb_below_root[OF assms(1) a(2) n(3) a(4)]
  show "toWeb e (Some (hashed_path (fontItalic e) h))
           = Inr (''/fonts/Cormorant Italic Variable Font'' @ ''.'' @ h @ ''.woff2'')"
    by (simp add: hp)
qed

lemma hashed_form:
  assumes "list_all is_hex_lower h" "8 \<le> length h" "length h \<le> 12"
  shows "pre @ ''.'' @ h @ ext \<in> ref_forms pre ext"
  using assms unfolding ref_forms_def by blast

lemma escape_path_font:
  assumes "list_all is_hex_lower h"
  shows "escape_path (''/fonts/Cormorant Variable Font'' @ ''.'' @ h @ ''.woff2'')
           = (CHR 0x5C # ''/fonts'' @ CHR 0x5C # ''/Cormorant Variable Font'')
               @ (CHR 0x5C # ''.'' @ h @ CHR 0x5C # ''.woff2'')"
    and "escape_path (''/fonts/Cormorant Italic Variable Font'' @ ''.'' @ h @ ''.woff2'')
           = (CHR 0x5C # ''/fonts'' @ CHR 0x5C # ''/Cormorant Italic Variable Font'')
               @ (CHR 0x5C # ''.'' @ h @ CHR 0x5C # ''.woff2'')"
proof -
  note n = hex_no_sep[OF assms]
  have s: "gsub (match_lit ''/'') r h = h" "gsub (match_lit ''.'') r h = h" for r
    using n by (simp_all add: gsub_lit1_id)
  have 1: "gsub (match_lit ''/'') [CHR 0x5C, CHR ''/''] (''/fonts/Cormorant Variable Font.'' @ h @ ''.woff2'')
      = (CHR 0x5C # ''/fonts'' @ CHR 0x5C # ''/Cormorant Variable Font.'') @ h @ ''.woff2''"
    unfolding gsub_lit1_append s by (simp add: match_lit_def)
  have 2: "gsub (match_lit ''.'') [CHR 0x5C, CHR ''.'']
        ((CHR 0x5C # ''/fonts'' @ CHR 0x5C # ''/Cormorant Variable Font.'') @ h @ ''.woff2'')
      = (CHR 0x5C # ''/fonts'' @ CHR 0x5C # ''/Cormorant Variable Font'')
               @ (CHR 0x5C # ''.'' @ h @ CHR 0x5C # ''.woff2'')"
    unfolding gsub_lit1_append s by (simp add: match_lit_def)
  have 3: "gsub (match_lit ''/'') [CHR 0x5C, CHR ''/''] (''/fonts/Cormorant Italic Variable Font.'' @ h @ ''.woff2'')
      = (CHR 0x5C # ''/fonts'' @ CHR 0x5C # ''/Cormorant Italic Variable Font.'') @ h @ ''.woff2''"
    unfolding gsub_lit1_append s by (simp add: match_lit_def)
  have 4: "gsub (match_lit ''.'') [CHR 0x5C, CHR ''.'']
        ((CHR 0x5C # ''/fonts'' @ CHR 0x5C # ''/Cormorant Italic Variable Font.'') @ h @ ''.woff2'')
      = (CHR 0x5C # ''/fonts'' @ CHR 0x5C # ''/Cormorant Italic Variable Font'')
               @ (CHR 0x5C # ''.'' @ h @ CHR 0x5C # ''.woff2'')"
    unfolding gsub_lit1_append s by (simp add: match_lit_def)
  show "escape_path (''/fonts/Cormorant Variable Font'' @ ''.'' @ h @ ''.woff2'')
           = (CHR 0x5C # ''/fonts'' @ CHR 0x5C # ''/Cormorant Variable Font'')
               @ (CHR 0x5C # ''.'' @ h @ CHR 0x5C # ''.woff2'')"
    unfolding escape_path_def str_replaceAll_def using 1 2 by simp
  show "escape_path (''/fonts/Cormorant Italic Variable Font'' @ ''.'' @ h @ ''.woff2'')
           = (CHR 0x5C # ''/fonts'' @ CHR 0x5C # ''/Cormorant Italic Variable Font'')
               @ (CHR 0x5C # ''.'' @ h @ CHR 0x5C # ''.woff2'')"
    unfolding escape_path_def str_replaceAll_def using 3 4 by simp
qed

subsection \<open>What one pass does to the matches of each pattern\<close>

lemma pattern_cases:
  assumes "(pre, ext) \<in> set patterns"
  obtains "pre = ''/assets/tailwind''" "ext = ''.css''"
    | "pre = ''/fonts/Cormorant Variable Font''" "ext = ''.woff2''"
    | "pre = ''/fonts/Cormorant Italic Variable Font''" "ext = ''.woff2''"
  using assms unfolding patterns_def by auto

lemma pattern_ext:
  assumes "(pre, ext) \<in> set patterns"
  obtains e where "ext = CHR ''.'' # e" "e \<in> {''css'', ''woff2''}" "\<not> list_all is_hex_lower (take 8 e)"
proof (rule pattern_cases[OF assms])
  assume "ext = ''.css''"
  then show ?thesis using that[of "''css''"] by (simp add: is_hex_lower_def)
next
  assume "ext = ''.woff2''"
  then show ?thesis using that[of "''woff2''"] by (simp add: is_hex_lower_def)
next
  assume "ext = ''.woff2''"
  then show ?thesis using that[of "''woff2''"] by (simp add: is_hex_lower_def)
qed

lemma pattern_word:
  assumes "(pre, ext) \<in> set patterns" "m \<in> ref_forms pre ext"
  obtains rest where "m = pre @ rest" "rest \<noteq> []" "CHR ''/'' \<notin> set rest" "CHR 0x5C \<notin> set rest"
proof -
  from pattern_ext[OF assms(1)] obtain e where e: "ext = CHR ''.'' # e" "e \<in> {''css'', ''woff2''}"
    by blast
  from forms_rest[OF assms(2)[unfolded e(1)] e(2)] that show ?thesis by blast
qed

lemma pattern_web:
  assumes "(pre, ext) \<in> set patterns" "m \<in> ref_forms pre ext"
  shows "prefix ''/assets/'' m \<or> prefix ''/fonts/'' m" and "CHR 0x5C \<notin> set m" and "m \<noteq> []"
proof -
  from pattern_word[OF assms] obtain rest where
    r: "m = pre @ rest" "rest \<noteq> []" "CHR ''/'' \<notin> set rest" "CHR 0x5C \<notin> set rest" by blast
  from r(1,2) show "m \<noteq> []" by simp
  show "prefix ''/assets/'' m \<or> prefix ''/fonts/'' m"
    by (rule pattern_cases[OF assms(1)]) (simp_all add: r(1))
  show "CHR 0x5C \<notin> set m"
    by (rule pattern_cases[OF assms(1)]) (simp_all add: r(1,4))
qed

lemma pattern_tails:
  assumes "(pre, ext) \<in> set patterns" "m \<in> ref_forms pre ext"
    and "prefix ''/assets/'' R \<or> prefix ''/fonts/'' R" "0 < i" "i < length m"
  shows "drop i m \<parallel> R"
proof -
  from pattern_word[OF assms(1,2)] obtain rest where
    r: "m = pre @ rest" "CHR ''/'' \<notin> set rest" by blast
  show ?thesis
  proof (rule pattern_cases[OF assms(1)])
    assume "pre = ''/assets/tailwind''"
    with word_tails(1)[OF r(2) assms(3,4)] assms(5) r(1) show ?thesis by simp
  next
    assume "pre = ''/fonts/Cormorant Variable Font''"
    with word_tails(2)[OF r(2) assms(3,4)] assms(5) r(1) show ?thesis by simp
  next
    assume "pre = ''/fonts/Cormorant Italic Variable Font''"
    with word_tails(3)[OF r(2) assms(3,4)] assms(5) r(1) show ?thesis by simp
  qed
qed

lemma pattern_distinct:
  assumes "(pre, ext) \<in> set patterns" "m \<in> ref_forms pre ext"
    and "(pre', ext') \<in> set patterns" "R \<in> ref_forms pre' ext'"
    and "\<not> R \<parallel> m"
  shows "pre' = pre \<and> ext' = ext"
proof -
  from pattern_word[OF assms(1,2)] obtain x where x: "m = pre @ x" by blast
  from pattern_word[OF assms(3,4)] obtain y where y: "R = pre' @ y" by blast
  from assms(5) have n: "\<not> pre' @ y \<parallel> pre @ x" unfolding x y .
  show ?thesis
  proof (rule pattern_cases[OF assms(1)])
    assume a: "pre = ''/assets/tailwind''" "ext = ''.css''"
    show ?thesis
    proof (rule pattern_cases[OF assms(3)])
      assume "pre' = ''/assets/tailwind''" "ext' = ''.css''"
      with a show ?thesis by simp
    next
      assume "pre' = ''/fonts/Cormorant Variable Font''" "ext' = ''.woff2''"
      with n a prefixes_parallel(4)[of y x] show ?thesis by blast
    next
      assume "pre' = ''/fonts/Cormorant Italic Variable Font''" "ext' = ''.woff2''"
      with n a prefixes_parallel(5)[of y x] show ?thesis by blast
    qed
  next
    assume a: "pre = ''/fonts/Cormorant Variable Font''" "ext = ''.woff2''"
    show ?thesis
    proof (rule pattern_cases[OF assms(3)])
      assume "pre' = ''/assets/tailwind''" "ext' = ''.css''"
      with n a prefixes_parallel(1)[of y x] show ?thesis by blast
    next
      assume "pre' = ''/fonts/Cormorant Variable Font''" "ext' = ''.woff2''"
      with a show ?thesis by simp
    next
      assume "pre' = ''/fonts/Cormorant Italic Variable Font''" "ext' = ''.woff2''"
      with n a prefixes_parallel(6)[of y x] show ?thesis by blast
    qed
  next
    assume a: "pre = ''/fonts/Cormorant Italic Variable Font''" "ext = ''.woff2''"
    show ?thesis
    proof (rule pattern_cases[OF assms(3)])
      assume "pre' = ''/assets/tailwind''" "ext' = ''.css''"
      with n a prefixes_parallel(2)[of y x] show ?thesis by blast
    next
      assume "pre' = ''/fonts/Cormorant Variable Font''" "ext' = ''.woff2''"
      with n a prefixes_parallel(3)[of y x] show ?thesis by blast
    next
      assume "pre' = ''/fonts/Cormorant Italic Variable Font''" "ext' = ''.woff2''"
      with a show ?thesis by simp
    qed
  qed
qed

lemma step_keeps_matches:
  assumes sane: "\<And>s n. M s = Some n \<Longrightarrow> 0 < n \<and> n \<le> length s"
    and pa: "(pre, ext) \<in> set patterns" and pb: "(pre', ext') \<in> set patterns"
    and R: "R \<in> ref_forms pre' ext'"
    and same: "pre' = pre \<Longrightarrow> R = R'"
    and before: "matches_only (match_ref pre ext) R' t \<or> M = match_ref pre ext"
  shows "matches_only (match_ref pre ext) R' (gsub M R t)"
proof -
  obtain e where e: "ext = CHR ''.'' # e" "\<not> list_all is_hex_lower (take 8 e)"
  proof (rule pattern_ext[OF pa])
    fix e assume "ext = CHR ''.'' # e" "\<not> list_all is_hex_lower (take 8 e)"
    then show thesis by (rule that)
  qed
  show ?thesis
  proof (rule matches_only_gsub[where F="ref_forms pre ext" and M=M and M'="match_ref pre ext"
        and R=R and R'=R' and t=t])
    show "matches_only (match_ref pre ext) R' t \<or> M = match_ref pre ext" by (rule before)
  next
    fix s n assume "M s = Some n"
    then show "0 < n \<and> n \<le> length s" by (rule sane)
  next
    fix s n assume "match_ref pre ext s = Some n"
    then show "take n s \<in> ref_forms pre ext \<and> n \<le> length s" by (rule match_ref_forms)
  next
    show "[] \<notin> ref_forms pre ext" using pattern_web(3)[OF pa] by blast
  next
    fix m v assume "m \<in> ref_forms pre ext"
    then show "match_ref pre ext (m @ v) = Some (length m)"
      unfolding e(1) by (rule forms_match_ref[OF e(2)])
  next
    fix m i assume "m \<in> ref_forms pre ext" "0 < i" "i < length m"
    then show "drop i m \<parallel> R" using pattern_tails[OF pa _ pattern_web(1)[OF pb R]] by blast
  next
    fix m a assume m: "m \<in> ref_forms pre ext" and a: "a < length R" and c: "\<not> drop a R \<parallel> m"
    show "m = R'"
    proof (cases "a = 0")
      case True
      with c have c': "\<not> R \<parallel> m" by simp
      from pattern_distinct[OF pa m pb R c'] have eq: "pre' = pre" "ext' = ext" by simp_all
      from c' have "\<not> m \<parallel> R" by (auto simp: parallel_def)
      from forms_comparable[OF e(2) m[unfolded e(1)] R[unfolded eq e(1)] this] same[OF eq(1)]
      show ?thesis by simp
    next
      case False
      with pattern_tails[OF pb R pattern_web(1)[OF pa m], of a] a c show ?thesis by simp
    qed
  qed
qed

lemma step_keeps_absent:
  assumes sane: "\<And>s n. M s = Some n \<Longrightarrow> 0 < n \<and> n \<le> length s"
    and pb: "(pre', ext') \<in> set patterns" and R: "R \<in> ref_forms pre' ext'"
    and E: "E = escape_path (p @ ''.'' @ h @ ''.woff2'')"
      "p = ''/fonts/Cormorant Variable Font'' \<or> p = ''/fonts/Cormorant Italic Variable Font''"
      "list_all is_hex_lower h"
    and before: "\<not> occurs_in E t \<or> M = match_lit E"
  shows "\<not> occurs_in E (gsub M R t)"
proof -
  define rest where "rest = CHR 0x5C # ''.'' @ h @ CHR 0x5C # ''.woff2''"
  have rest: "CHR ''/'' \<notin> set rest" using hex_no_sep(1)[OF E(3)] by (simp add: rest_def)
  from E(2) have form: "E = (CHR 0x5C # ''/fonts'' @ CHR 0x5C # ''/Cormorant Variable Font'') @ rest
      \<or> E = (CHR 0x5C # ''/fonts'' @ CHR 0x5C # ''/Cormorant Italic Variable Font'') @ rest"
  proof
    assume "p = ''/fonts/Cormorant Variable Font''"
    then have "E = (CHR 0x5C # ''/fonts'' @ CHR 0x5C # ''/Cormorant Variable Font'') @ rest"
      unfolding rest_def E(1) using escape_path_font(1)[OF E(3)] by simp
    then show ?thesis ..
  next
    assume "p = ''/fonts/Cormorant Italic Variable Font''"
    then have "E = (CHR 0x5C # ''/fonts'' @ CHR 0x5C # ''/Cormorant Italic Variable Font'') @ rest"
      unfolding rest_def E(1) using escape_path_font(2)[OF E(3)] by simp
    then show ?thesis ..
  qed
  then have ne: "E \<noteq> []" and hd: "hd E = CHR 0x5C" by (elim disjE; simp)+
  note web = pattern_web[OF pb R]
  show ?thesis
  proof (rule absent_gsub[where M=M and E=E and R=R and t=t])
    show "E \<noteq> []" by (rule ne)
  next
    fix s n assume "M s = Some n"
    then show "0 < n \<and> n \<le> length s" by (rule sane)
  next
    fix i assume i: "0 < i" "i < length E"
    from form show "drop i E \<parallel> R"
    proof
      assume f: "E = (CHR 0x5C # ''/fonts'' @ CHR 0x5C # ''/Cormorant Variable Font'') @ rest"
      show ?thesis unfolding f by (rule word_tails(4)[OF rest web(1) i(1) i(2)[unfolded f]])
    next
      assume f: "E = (CHR 0x5C # ''/fonts'' @ CHR 0x5C # ''/Cormorant Italic Variable Font'') @ rest"
      show ?thesis unfolding f by (rule word_tails(5)[OF rest web(1) i(1) i(2)[unfolded f]])
    qed
  next
    fix a assume "a < length R"
    then show "drop a R \<parallel> E" by (rule backslash_parallel[OF web(2) ne hd])
  next
    from before show "\<not> occurs_in E t \<or> (\<forall>v. M (E @ v) \<noteq> None)"
    proof
      assume "\<not> occurs_in E t"
      then show ?thesis ..
    next
      assume "M = match_lit E"
      then have "\<forall>v. M (E @ v) \<noteq> None" using ne by (simp add: match_lit_def)
      then show ?thesis ..
    qed
  qed
qed

subsection \<open>The block of a font, and the whole rewriting\<close>

lemma absent_fixed:
  assumes "\<not> occurs_in E t"
  shows "gsub (match_lit E) R t = t"
proof (rule gsub_matches_only[where M="match_lit E" and R=R and t=t])
  fix s n assume "match_lit E s = Some n"
  then show "0 < n \<and> n \<le> length s" by (rule match_lit_sane)
next
  show "matches_only (match_lit E) R t"
    unfolding matches_only_def
  proof (intro allI impI)
    fix u s n assume t: "t = u @ s" and m: "match_lit E s = Some n"
    from m have "prefix E s" by (simp add: match_lit_def split: if_splits)
    then obtain v where "s = E @ v" by (auto simp: prefix_def)
    with t have "occurs_in E t" unfolding occurs_in_def by blast
    with assms show "take n s = R" by simp
  qed
qed

lemma rewrite_font_passes:
  assumes "toWeb e (Some q) = Inr R" "escape_path R \<noteq> []"
  shows "rewrite_font e pre (Some q) t
           = Inr (gsub (match_lit (escape_path R)) R (gsub (match_ref pre ''.woff2'') R t))"
proof (cases "str_includes (gsub (match_ref pre ''.woff2'') R t) (escape_path R)")
  case True
  with assms show ?thesis
    by (simp add: rewrite_font_def Let_def replaceAll_def join_split_str)
next
  case False
  then have "\<not> occurs_in (escape_path R) (gsub (match_ref pre ''.woff2'') R t)"
    by (simp add: str_includes_occurs)
  from absent_fixed[OF this] False assms show ?thesis
    by (simp add: rewrite_font_def Let_def replaceAll_def)
qed

lemma match_ref_sane':
  "(pre, ext) \<in> set patterns \<Longrightarrow> match_ref pre ext s = Some n \<Longrightarrow> 0 < n \<and> n \<le> length s"
  by (rule match_ref_sane, assumption, erule pattern_cases) simp_all

lemma font_step:
  assumes pa: "(pre, ''.woff2'') \<in> set patterns"
    and p: "pre = ''/fonts/Cormorant Variable Font'' \<or> pre = ''/fonts/Cormorant Italic Variable Font''"
    and h: "list_all is_hex_lower h" "8 \<le> length h" "length h \<le> 12"
    and R: "R = pre @ ''.'' @ h @ ''.woff2''" and E: "E = escape_path R"
    and g: "t' = gsub (match_lit E) R (gsub (match_ref pre ''.woff2'') R t)"
  shows "matches_only (match_ref pre ''.woff2'') R t'"
    and "\<not> occurs_in E t'"
    and "\<And>pre0 ext0 R0. (pre0, ext0) \<in> set patterns \<Longrightarrow> (pre = pre0 \<Longrightarrow> R = R0) \<Longrightarrow>
           matches_only (match_ref pre0 ext0) R0 t \<Longrightarrow> matches_only (match_ref pre0 ext0) R0 t'"
    and "\<And>E0 p0 h0. E0 = escape_path (p0 @ ''.'' @ h0 @ ''.woff2'') \<Longrightarrow>
           p0 = ''/fonts/Cormorant Variable Font'' \<or> p0 = ''/fonts/Cormorant Italic Variable Font'' \<Longrightarrow>
           list_all is_hex_lower h0 \<Longrightarrow> \<not> occurs_in E0 t \<Longrightarrow> \<not> occurs_in E0 t'"
    and "matches_only (match_ref pre ''.woff2'') R t \<Longrightarrow> \<not> occurs_in E t \<Longrightarrow> t' = t"
proof -
  have RF: "R \<in> ref_forms pre ''.woff2''" unfolding R by (rule hashed_form[OF h])
  note s1 = match_ref_sane'[OF pa]
  note s2 = match_lit_sane[of E]
  define t1 where "t1 = gsub (match_ref pre ''.woff2'') R t"
  have g': "t' = gsub (match_lit E) R t1" by (simp add: g t1_def)
  have a1: "matches_only (match_ref pre ''.woff2'') R t1"
    unfolding t1_def
    by (rule step_keeps_matches[where M="match_ref pre ''.woff2''", OF s1 pa pa RF]) simp_all
  show "matches_only (match_ref pre ''.woff2'') R t'"
    unfolding g'
    by (rule step_keeps_matches[where M="match_lit E", OF s2 pa pa RF]) (simp_all add: a1)
  show "\<not> occurs_in E t'"
    unfolding g'
    by (rule step_keeps_absent[where M="match_lit E" and p=pre and h=h, OF s2 pa RF _ p h(1)])
       (simp_all add: E R)
  show "matches_only (match_ref pre0 ext0) R0 t'"
    if "(pre0, ext0) \<in> set patterns" "pre = pre0 \<Longrightarrow> R = R0" "matches_only (match_ref pre0 ext0) R0 t"
    for pre0 ext0 R0
  proof -
    have "matches_only (match_ref pre0 ext0) R0 t1"
      unfolding t1_def
      by (rule step_keeps_matches[where M="match_ref pre ''.woff2''", OF s1 that(1) pa RF])
         (simp_all add: that)
    then show ?thesis
      unfolding g'
      by (intro step_keeps_matches[where M="match_lit E", OF s2 that(1) pa RF])
         (simp_all add: that)
  qed
  show "\<not> occurs_in E0 t'"
    if "E0 = escape_path (p0 @ ''.'' @ h0 @ ''.woff2'')"
      "p0 = ''/fonts/Cormorant Variable Font'' \<or> p0 = ''/fonts/Cormorant Italic Variable Font''"
      "list_all is_hex_lower h0" "\<not> occurs_in E0 t"
    for E0 p0 h0
  proof -
    have "\<not> occurs_in E0 t1"
      unfolding t1_def
      by (rule step_keeps_absent[where M="match_ref pre ''.woff2''", OF s1 pa RF that(1,2,3)])
         (simp_all add: that(4))
    then show ?thesis
      unfolding g'
      by (intro step_keeps_absent[where M="match_lit E", OF s2 pa RF that(1,2,3)]) simp_all
  qed
  show "t' = t" if "matches_only (match_ref pre ''.woff2'') R t" "\<not> occurs_in E t"
  proof -
    from gsub_matches_only[where M="match_ref pre ''.woff2''" and R=R and t=t, OF s1 that(1)]
    have "t1 = t" by (simp add: t1_def)
    with absent_fixed[OF that(2)] g' show ?thesis by simp
  qed
qed

lemma font_patterns:
  "(''/fonts/Cormorant Variable Font'', ''.woff2'') \<in> set patterns"
  "(''/fonts/Cormorant Italic Variable Font'', ''.woff2'') \<in> set patterns"
  "(''/assets/tailwind'', ''.css'') \<in> set patterns"
  by (simp_all add: patterns_def)

lemma font_block_cases:
  assumes root: "ROOT e \<noteq> []" "hd (ROOT e) = CHR ''/''"
    and pf: "(f = fontRegular e \<and> pre = ''/fonts/Cormorant Variable Font'')
           \<or> (f = fontItalic e \<and> pre = ''/fonts/Cormorant Italic Variable Font'')"
    and o: "outs f = None \<or> (\<exists>h. outs f = Some (hashed_path f h) \<and> list_all is_hex_lower h
                                  \<and> 8 \<le> length h \<and> length h \<le> 12)"
  obtains (absent) "\<And>x. rewrite_font e pre (outs f) x = Inr x"
    | (present) h where "list_all is_hex_lower h" "8 \<le> length h" "length h \<le> 12"
        "\<And>x. rewrite_font e pre (outs f) x
              = Inr (gsub (match_lit (escape_path (pre @ ''.'' @ h @ ''.woff2''))) (pre @ ''.'' @ h @ ''.woff2'')
                      (gsub (match_ref pre ''.woff2'') (pre @ ''.'' @ h @ ''.woff2'') x))"
proof (cases "outs f")
  case None
  then have "rewrite_font e pre (outs f) x = Inr x" for x by (simp add: rewrite_font_def)
  then show ?thesis by (rule absent)
next
  case (Some q)
  with o obtain h where h: "outs f = Some (hashed_path f h)" "list_all is_hex_lower h"
    "8 \<le> length h" "length h \<le> 12" by auto
  have w: "toWeb e (Some (hashed_path f h)) = Inr (pre @ ''.'' @ h @ ''.woff2'')"
    using pf web_paths(2,3)[OF root h(2)] by (elim disjE conjE) simp_all
  have ne: "escape_path (pre @ ''.'' @ h @ ''.woff2'') \<noteq> []"
    using pf escape_path_font[OF h(2)] by (elim disjE conjE) simp_all
  have "rewrite_font e pre (outs f) x
      = Inr (gsub (match_lit (escape_path (pre @ ''.'' @ h @ ''.woff2''))) (pre @ ''.'' @ h @ ''.woff2'')
               (gsub (match_ref pre ''.woff2'') (pre @ ''.'' @ h @ ''.woff2'') x))" for x
    unfolding h(1) by (rule rewrite_font_passes[OF w ne])
  with h(2,3,4) show ?thesis by (rule present)
qed

lemma font_block:
  assumes root: "ROOT e \<noteq> []" "hd (ROOT e) = CHR ''/''"
    and pf: "(f = fontRegular e \<and> pre = ''/fonts/Cormorant Variable Font'')
           \<or> (f = fontItalic e \<and> pre = ''/fonts/Cormorant Italic Variable Font'')"
    and o: "outs f = None \<or> (\<exists>h. outs f = Some (hashed_path f h) \<and> list_all is_hex_lower h
                                  \<and> 8 \<le> length h \<and> length h \<le> 12)"
  shows "\<exists>y. rewrite_font e pre (outs f) x = Inr y"
    and "rewrite_font e pre (outs f) x = Inr y \<Longrightarrow> rewrite_font e pre (outs f) y = Inr y"
    and "rewrite_font e pre (outs f) x = Inr y \<Longrightarrow> (pre0, ext0) \<in> set patterns \<Longrightarrow> pre0 \<noteq> pre \<Longrightarrow>
           matches_only (match_ref pre0 ext0) R0 x \<Longrightarrow> matches_only (match_ref pre0 ext0) R0 y"
proof -
  have pa: "(pre, ''.woff2'') \<in> set patterns" and p: "pre = ''/fonts/Cormorant Variable Font''
      \<or> pre = ''/fonts/Cormorant Italic Variable Font''"
    using pf font_patterns by auto
  show "\<exists>y. rewrite_font e pre (outs f) x = Inr y"
    by (rule font_block_cases[where e=e and f=f and pre=pre and outs=outs, OF root pf o]) simp_all
  show "rewrite_font e pre (outs f) y = Inr y" if "rewrite_font e pre (outs f) x = Inr y"
  proof (rule font_block_cases[where e=e and f=f and pre=pre and outs=outs, OF root pf o])
    assume "\<And>x. rewrite_font e pre (outs f) x = Inr x"
    then show ?thesis .
  next
    fix h assume h: "list_all is_hex_lower h" "8 \<le> length h" "length h \<le> 12"
      and rf: "\<And>x. rewrite_font e pre (outs f) x
              = Inr (gsub (match_lit (escape_path (pre @ ''.'' @ h @ ''.woff2''))) (pre @ ''.'' @ h @ ''.woff2'')
                      (gsub (match_ref pre ''.woff2'') (pre @ ''.'' @ h @ ''.woff2'') x))"
    from that rf[of x] have y: "y = gsub (match_lit (escape_path (pre @ ''.'' @ h @ ''.woff2''))) (pre @ ''.'' @ h @ ''.woff2'')
                      (gsub (match_ref pre ''.woff2'') (pre @ ''.'' @ h @ ''.woff2'') x)" by simp
    note fs = font_step[OF pa p h refl refl]
    from fs(5)[OF refl fs(1)[OF y] fs(2)[OF y]] rf[of y] show ?thesis by simp
  qed
  show "matches_only (match_ref pre0 ext0) R0 y"
    if "rewrite_font e pre (outs f) x = Inr y" "(pre0, ext0) \<in> set patterns" "pre0 \<noteq> pre"
      "matches_only (match_ref pre0 ext0) R0 x" for pre0 ext0 R0
  proof (rule font_block_cases[where e=e and f=f and pre=pre and outs=outs, OF root pf o])
    assume "\<And>x. rewrite_font e pre (outs f) x = Inr x"
    from this[of x] that(1,4) show ?thesis by simp
  next
    fix h assume h: "list_all is_hex_lower h" "8 \<le> length h" "length h \<le> 12"
      and rf: "\<And>x. rewrite_font e pre (outs f) x
              = Inr (gsub (match_lit (escape_path (pre @ ''.'' @ h @ ''.woff2''))) (pre @ ''.'' @ h @ ''.woff2'')
                      (gsub (match_ref pre ''.woff2'') (pre @ ''.'' @ h @ ''.woff2'') x))"
    from that(1) rf[of x] have y: "y = gsub (match_lit (escape_path (pre @ ''.'' @ h @ ''.woff2''))) (pre @ ''.'' @ h @ ''.woff2'')
                      (gsub (match_ref pre ''.woff2'') (pre @ ''.'' @ h @ ''.woff2'') x)" by simp
    note fs = font_step[OF pa p h refl refl]
    from that(3) show ?thesis by (intro fs(3)[OF y that(2) _ that(4)]) simp
  qed
qed

lemma font_blocks_commute:
  assumes root: "ROOT e \<noteq> []" "hd (ROOT e) = CHR ''/''"
    and o: "outs (fontRegular e) = None \<or> (\<exists>h. outs (fontRegular e) = Some (hashed_path (fontRegular e) h)
                \<and> list_all is_hex_lower h \<and> 8 \<le> length h \<and> length h \<le> 12)"
    and o': "outs (fontItalic e) = None \<or> (\<exists>h. outs (fontItalic e) = Some (hashed_path (fontItalic e) h)
                \<and> list_all is_hex_lower h \<and> 8 \<le> length h \<and> length h \<le> 12)"
    and fixed: "rewrite_font e ''/fonts/Cormorant Variable Font'' (outs (fontRegular e)) x = Inr x"
    and step: "rewrite_font e ''/fonts/Cormorant Italic Variable Font'' (outs (fontItalic e)) x = Inr y"
  shows "rewrite_font e ''/fonts/Cormorant Variable Font'' (outs (fontRegular e)) y = Inr y"
proof -
  let ?P = "''/fonts/Cormorant Variable Font''" and ?Q = "''/fonts/Cormorant Italic Variable Font''"
  have pf: "(fontRegular e = fontRegular e \<and> ?P = ''/fonts/Cormorant Variable Font'')
         \<or> (fontRegular e = fontItalic e \<and> ?P = ''/fonts/Cormorant Italic Variable Font'')" by simp
  have pf': "(fontItalic e = fontRegular e \<and> ?Q = ''/fonts/Cormorant Variable Font'')
         \<or> (fontItalic e = fontItalic e \<and> ?Q = ''/fonts/Cormorant Italic Variable Font'')" by simp
  have pq: "?P \<noteq> ?Q" by simp
  show ?thesis
  proof (rule font_block_cases[where e=e and f="fontRegular e" and pre="?P" and outs=outs, OF root pf o])
    assume "\<And>x. rewrite_font e ?P (outs (fontRegular e)) x = Inr x"
    then show ?thesis .
  next
    fix h assume h: "list_all is_hex_lower h" "8 \<le> length h" "length h \<le> 12"
      and rf: "\<And>x. rewrite_font e ?P (outs (fontRegular e)) x
              = Inr (gsub (match_lit (escape_path (?P @ ''.'' @ h @ ''.woff2''))) (?P @ ''.'' @ h @ ''.woff2'')
                      (gsub (match_ref ?P ''.woff2'') (?P @ ''.'' @ h @ ''.woff2'') x))"
    from fixed rf[of x] have x: "x = gsub (match_lit (escape_path (?P @ ''.'' @ h @ ''.woff2''))) (?P @ ''.'' @ h @ ''.woff2'')
                      (gsub (match_ref ?P ''.woff2'') (?P @ ''.'' @ h @ ''.woff2'') x)" by simp
    have A: "matches_only (match_ref ?P ''.woff2'') (?P @ ''.'' @ h @ ''.woff2'') x"
      and B: "\<not> occurs_in (escape_path (?P @ ''.'' @ h @ ''.woff2'')) x"
      using font_step(1,2)[OF font_patterns(1) _ h refl refl x] by simp_all
    have "matches_only (match_ref ?P ''.woff2'') (?P @ ''.'' @ h @ ''.woff2'') y
        \<and> \<not> occurs_in (escape_path (?P @ ''.'' @ h @ ''.woff2'')) y"
    proof (rule font_block_cases[where e=e and f="fontItalic e" and pre="?Q" and outs=outs, OF root pf' o'])
      assume "\<And>x. rewrite_font e ?Q (outs (fontItalic e)) x = Inr x"
      from this[of x] step A B show ?thesis by simp
    next
      fix k assume k: "list_all is_hex_lower k" "8 \<le> length k" "length k \<le> 12"
        and rf': "\<And>x. rewrite_font e ?Q (outs (fontItalic e)) x
              = Inr (gsub (match_lit (escape_path (?Q @ ''.'' @ k @ ''.woff2''))) (?Q @ ''.'' @ k @ ''.woff2'')
                      (gsub (match_ref ?Q ''.woff2'') (?Q @ ''.'' @ k @ ''.woff2'') x))"
      from step rf'[of x] have y: "y = gsub (match_lit (escape_path (?Q @ ''.'' @ k @ ''.woff2''))) (?Q @ ''.'' @ k @ ''.woff2'')
                      (gsub (match_ref ?Q ''.woff2'') (?Q @ ''.'' @ k @ ''.woff2'') x)" by simp
      have q: "?Q = ''/fonts/Cormorant Variable Font'' \<or> ?Q = ''/fonts/Cormorant Italic Variable Font''"
        by simp
      have p: "?P = ''/fonts/Cormorant Variable Font'' \<or> ?P = ''/fonts/Cormorant Italic Variable Font''"
        by simp
      note fs' = font_step[OF font_patterns(2) q k refl refl y]
      have 1: "matches_only (match_ref ?P ''.woff2'') (?P @ ''.'' @ h @ ''.woff2'') y"
        by (rule fs'(3)[OF font_patterns(1) _ A]) simp
      have 2: "\<not> occurs_in (escape_path (?P @ ''.'' @ h @ ''.woff2'')) y"
        by (rule fs'(4)[OF refl p h(1) B])
      from 1 2 show ?thesis ..
    qed
    then have A': "matches_only (match_ref ?P ''.woff2'') (?P @ ''.'' @ h @ ''.woff2'') y"
      and B': "\<not> occurs_in (escape_path (?P @ ''.'' @ h @ ''.woff2'')) y" by simp_all
    have p: "?P = ''/fonts/Cormorant Variable Font'' \<or> ?P = ''/fonts/Cormorant Italic Variable Font''"
      by simp
    from font_step(5)[OF font_patterns(1) p h refl refl refl A' B'] rf[of y] show ?thesis by simp
  qed
qed

lemma rewrite_references_idempotent:
  assumes root: "ROOT e \<noteq> []" "hd (ROOT e) = CHR ''/''"
    and outs: "\<And>f. f \<in> {cssFile e, fontRegular e, fontItalic e} \<Longrightarrow>
        outs f = None \<or> (\<exists>h. outs f = Some (hashed_path f h) \<and> list_all is_hex_lower h
                               \<and> 8 \<le> length h \<and> length h \<le> 12)"
    and r: "rewrite_references e outs t = Inr t'"
  shows "rewrite_references e outs t' = Inr t'"
proof -
  let ?P = "''/fonts/Cormorant Variable Font''" and ?Q = "''/fonts/Cormorant Italic Variable Font''"
  let ?M = "match_ref ''/assets/tailwind'' ''.css''"
  have oc: "outs (cssFile e) = None \<or> (\<exists>h. outs (cssFile e) = Some (hashed_path (cssFile e) h)
      \<and> list_all is_hex_lower h \<and> 8 \<le> length h \<and> length h \<le> 12)" by (rule outs) simp
  have o: "outs (fontRegular e) = None \<or> (\<exists>h. outs (fontRegular e) = Some (hashed_path (fontRegular e) h)
      \<and> list_all is_hex_lower h \<and> 8 \<le> length h \<and> length h \<le> 12)" by (rule outs) simp
  have o': "outs (fontItalic e) = None \<or> (\<exists>h. outs (fontItalic e) = Some (hashed_path (fontItalic e) h)
      \<and> list_all is_hex_lower h \<and> 8 \<le> length h \<and> length h \<le> 12)" by (rule outs) simp
  have pf: "(fontRegular e = fontRegular e \<and> ?P = ''/fonts/Cormorant Variable Font'')
         \<or> (fontRegular e = fontItalic e \<and> ?P = ''/fonts/Cormorant Italic Variable Font'')" by simp
  have pf': "(fontItalic e = fontRegular e \<and> ?Q = ''/fonts/Cormorant Variable Font'')
         \<or> (fontItalic e = fontItalic e \<and> ?Q = ''/fonts/Cormorant Italic Variable Font'')" by simp
  note reg = font_block[where e=e and f="fontRegular e" and pre="?P" and outs=outs, OF root pf o]
  note ita = font_block[where e=e and f="fontItalic e" and pre="?Q" and outs=outs, OF root pf' o']
  have "outs (cssFile e) \<noteq> None"
  proof
    assume "outs (cssFile e) = None"
    then have "rewrite_references e outs t = Inl TypeError"
      by (simp add: rewrite_references_def toWeb_def)
    with r show False by simp
  qed
  with oc obtain h where h: "outs (cssFile e) = Some (hashed_path (cssFile e) h)"
    "list_all is_hex_lower h" "8 \<le> length h" "length h \<le> 12" by auto
  define C where "C = ''/assets/tailwind'' @ ''.'' @ h @ ''.css''"
  have w: "toWeb e (outs (cssFile e)) = Inr C"
    unfolding h(1) C_def by (rule web_paths(1)[OF root h(2)])
  have CF: "C \<in> ref_forms ''/assets/tailwind'' ''.css''" unfolding C_def by (rule hashed_form[OF h(2,3,4)])
  note sane = match_ref_sane'[OF font_patterns(3)]
  define t1 where "t1 = gsub ?M C t"
  have a1: "matches_only ?M C t1"
    unfolding t1_def
    by (rule step_keeps_matches[where M="?M", OF sane font_patterns(3) font_patterns(3) CF]) simp_all
  from reg(1)[of t1] obtain t2 where t2: "rewrite_font e ?P (outs (fontRegular e)) t1 = Inr t2" by blast
  have t': "rewrite_font e ?Q (outs (fontItalic e)) t2 = Inr t'"
    using r w h(1) t2 by (simp add: rewrite_references_def replaceAll_def t1_def)
  have a2: "matches_only ?M C t2"
    by (rule reg(3)[OF t2 font_patterns(3) _ a1]) simp
  have a3: "matches_only ?M C t'"
    by (rule ita(3)[OF t' font_patterns(3) _ a2]) simp
  have c: "gsub ?M C t' = t'"
    by (rule gsub_matches_only[where M="?M", OF sane a3])
  have f2: "rewrite_font e ?P (outs (fontRegular e)) t2 = Inr t2" by (rule reg(2)[OF t2])
  have f3: "rewrite_font e ?P (outs (fontRegular e)) t' = Inr t'"
    by (rule font_blocks_commute[OF root o o' f2 t'])
  have f4: "rewrite_font e ?Q (outs (fontItalic e)) t' = Inr t'" by (rule ita(2)[OF t'])
  show ?thesis
    using w h(1) c f3 f4 by (simp add: rewrite_references_def replaceAll_def)
qed

subsection \<open>Two runs of the step\<close>

lemma hashed_not_asset:
  assumes "ROOT e \<noteq> []" "hd (ROOT e) = CHR ''/''"
    and "f \<in> {cssFile e, fontRegular e, fontItalic e}" "g \<in> {cssFile e, fontRegular e, fontItalic e}"
  shows "hashed_path f h \<noteq> g"
proof -
  note hp = hashed_asset_paths[OF assms(1,2)]
  note ap = asset_paths[OF assms(1,2)]
  have l: "h @ ''.css'' \<noteq> ''css''" "h @ ''.woff2'' \<noteq> ''woff2''"
  proof -
    show "h @ ''.css'' \<noteq> ''css''"
    proof
      assume "h @ ''.css'' = ''css''"
      then have "length (h @ ''.css'') = length ''css''" by (rule arg_cong)
      then show False by simp
    qed
    show "h @ ''.woff2'' \<noteq> ''woff2''"
    proof
      assume "h @ ''.woff2'' = ''woff2''"
      then have "length (h @ ''.woff2'') = length ''woff2''" by (rule arg_cong)
      then show False by simp
    qed
  qed
  have d: "hashed_path (cssFile e) h \<noteq> cssFile e" "hashed_path (cssFile e) h \<noteq> fontRegular e"
    "hashed_path (cssFile e) h \<noteq> fontItalic e"
    "hashed_path (fontRegular e) h \<noteq> cssFile e" "hashed_path (fontRegular e) h \<noteq> fontRegular e"
    "hashed_path (fontRegular e) h \<noteq> fontItalic e"
    "hashed_path (fontItalic e) h \<noteq> cssFile e" "hashed_path (fontItalic e) h \<noteq> fontRegular e"
    "hashed_path (fontItalic e) h \<noteq> fontItalic e"
    unfolding hp unfolding ap(1,2,3) using l by simp_all
  from assms(3,4) d show ?thesis by auto
qed

lemma asset_not_index:
  assumes "ROOT e \<noteq> []" "hd (ROOT e) = CHR ''/''" "f \<in> {cssFile e, fontRegular e, fontItalic e}"
  shows "f \<noteq> INDEX e"
proof -
  note ap = asset_paths[OF assms(1,2)]
  have "cssFile e \<noteq> INDEX e" "fontRegular e \<noteq> INDEX e" "fontItalic e \<noteq> INDEX e"
    by (simp_all add: ap)
  with assms(3) show ?thesis by auto
qed

lemma files_after_rewrite_other:
  "q \<noteq> INDEX e \<Longrightarrow> files_after_rewrite e outs fs q = fs q"
  by (simp add: files_after_rewrite_def split: option.splits sum.splits write_outcome.splits)

lemma files_after_rewrite_idempotent:
  assumes root: "ROOT e \<noteq> []" "hd (ROOT e) = CHR ''/''"
    and outs: "\<And>f. f \<in> {cssFile e, fontRegular e, fontItalic e} \<Longrightarrow>
        outs f = None \<or> (\<exists>h. outs f = Some (hashed_path f h) \<and> list_all is_hex_lower h
                               \<and> 8 \<le> length h \<and> length h \<le> 12)"
    and wr: "\<And>k. index_write e \<noteq> FailsAfterBytes k"
  shows "files_after_rewrite e outs (files_after_rewrite e outs fs) = files_after_rewrite e outs fs"
proof (cases "fs (INDEX e)")
  case None
  then show ?thesis by (simp add: files_after_rewrite_def)
next
  case (Some html)
  show ?thesis
  proof (cases "rewrite_references e outs html")
    case (Inl err)
    with Some show ?thesis by (simp add: files_after_rewrite_def)
  next
    case (Inr html')
    from rewrite_references_idempotent[OF root outs Inr]
    have i: "rewrite_references e outs html' = Inr html'" .
    show ?thesis
    proof (cases "index_write e")
      case WriteOk
      with Some Inr i show ?thesis by (simp add: files_after_rewrite_def)
    next
      case FailsBeforeOpen
      with Some Inr show ?thesis by (simp add: files_after_rewrite_def)
    next
      case (FailsAfterBytes k)
      with wr[of k] show ?thesis by simp
    qed
  qed
qed

lemma run_cases:
  obtains (idle) "SKIP_FINGERPRINT e = Some ''1'' \<or> filter (existsSync w) [cssFile e, fontRegular e, fontItalic e] = []"
      "files (fst (fingerprint_assets e w)) = files w"
    | (active) wc outs where "SKIP_FINGERPRINT e \<noteq> Some ''1''"
      "filter (existsSync w) [cssFile e, fontRegular e, fontItalic e] \<noteq> []"
      "produce_copies e (filter (existsSync w) [cssFile e, fontRegular e, fontItalic e]) w Map.empty = (wc, Inr outs)"
      "files (fst (fingerprint_assets e w)) = files_after_rewrite e outs (files wc)"
proof (cases "SKIP_FINGERPRINT e = Some ''1'' \<or> filter (existsSync w) [cssFile e, fontRegular e, fontItalic e] = []")
  case True
  define found where "found = filter (existsSync w) [cssFile e, fontRegular e, fontItalic e]"
  from True have "SKIP_FINGERPRINT e = Some ''1'' \<or> found = []" by (simp add: found_def)
  then have "files (fst (main_body e w)) = files w"
    unfolding main_body_def Let_def found_def[symmetric] by (auto simp: log_def)
  then have "files (fst (fingerprint_assets e w)) = files w"
    by (simp add: fingerprint_assets_world main_files)
  with True show ?thesis by (rule idle)
next
  case False
  define found where "found = filter (existsSync w) [cssFile e, fontRegular e, fontItalic e]"
  from False have ns: "SKIP_FINGERPRINT e \<noteq> Some ''1''" and ne: "found \<noteq> []" by (simp_all add: found_def)
  have ex: "\<forall>g\<in>set found. files w g \<noteq> None" unfolding found_def by (rule found_exist)
  from produce_copies_total[OF ex, where e=e and out=Map.empty] obtain wc outs where
    pc: "produce_copies e found w Map.empty = (wc, Inr outs)" by blast
  have "files (fst (main_body e w)) = files_after_rewrite e outs (files wc)"
    unfolding main_body_def Let_def found_def[symmetric] files_after_rewrite_def
    using ns ne pc
    by (simp add: readFileSync_def writeFileSync_def log_def
             split: option.splits sum.splits write_outcome.splits)
  then have "files (fst (fingerprint_assets e w)) = files_after_rewrite e outs (files wc)"
    by (simp add: fingerprint_assets_world main_files)
  with ns ne pc show ?thesis unfolding found_def by (rule active)
qed

lemma digest_hex:
  assumes "\<forall>buf. list_all is_hex_lower (sha256_hex e buf) \<and> length (sha256_hex e buf) = 64"
  shows "list_all is_hex_lower (digest e b)" "length (digest e b) = 10"
proof -
  from assms have h: "list_all is_hex_lower (sha256_hex e b)" and l: "length (sha256_hex e b) = 64"
    by simp_all
  from h show "list_all is_hex_lower (digest e b)"
    unfolding digest_def by (metis append_take_drop_id list_all_append)
  from l show "length (digest e b) = 10" by (simp add: digest_def)
qed

lemma copies_outputs:
  assumes sha: "\<forall>buf. list_all is_hex_lower (sha256_hex e buf) \<and> length (sha256_hex e buf) = 64"
    and sub: "set found \<subseteq> {cssFile e, fontRegular e, fontItalic e}"
    and ex: "\<forall>g\<in>set found. files w g \<noteq> None"
    and pc: "produce_copies e found w Map.empty = (wc, Inr outs)"
    and f: "f \<in> {cssFile e, fontRegular e, fontItalic e}"
  shows "outs f = None \<or> (\<exists>h. outs f = Some (hashed_path f h) \<and> list_all is_hex_lower h
                               \<and> 8 \<le> length h \<and> length h \<le> 12)"
proof -
  from produce_copies_total[OF ex, where e=e and out=Map.empty] pc have
    outsP: "\<forall>f\<in>set found. \<forall>b. files w f = Some b \<longrightarrow>
            outs f = Some (hashed_path f (digest e b)) \<and> files wc (hashed_path f (digest e b)) \<noteq> None"
    and other: "\<forall>f. f \<notin> set found \<longrightarrow> outs f = Map.empty f"
    by auto
  show ?thesis
  proof (cases "f \<in> set found")
    case True
    with ex obtain b where b: "files w f = Some b" by auto
    with outsP True have "outs f = Some (hashed_path f (digest e b))" by blast
    with digest_hex[OF sha, of b] show ?thesis by auto
  next
    case False
    with other show ?thesis by simp
  qed
qed

lemma second_run:
  assumes root: "ROOT e \<noteq> []" "hd (ROOT e) = CHR ''/''"
    and sha: "\<forall>buf. list_all is_hex_lower (sha256_hex e buf) \<and> length (sha256_hex e buf) = 64"
    and wr: "\<And>k. index_write e \<noteq> FailsAfterBytes k"
  shows "files (fst (fingerprint_assets e (fst (fingerprint_assets e w))))
           = files (fst (fingerprint_assets e w))"
proof -
  define A where "A = [cssFile e, fontRegular e, fontItalic e]"
  define w1 where "w1 = fst (fingerprint_assets e w)"
  define found where "found = filter (existsSync w) A"
  have Aset: "set A = {cssFile e, fontRegular e, fontItalic e}" by (simp add: A_def)
  have sub: "set found \<subseteq> {cssFile e, fontRegular e, fontItalic e}"
    unfolding found_def using Aset by auto
  have ex: "\<forall>g\<in>set found. files w g \<noteq> None" unfolding found_def by (rule found_exist)
  show ?thesis unfolding w1_def[symmetric]
  proof (rule run_cases[of e w])
    assume idle: "SKIP_FINGERPRINT e = Some ''1'' \<or> filter (existsSync w) [cssFile e, fontRegular e, fontItalic e] = []"
      and same: "files (fst (fingerprint_assets e w)) = files w"
    from same have fw: "files w1 = files w" by (simp add: w1_def)
    then have "existsSync w1 = existsSync w" by (simp add: existsSync_def fun_eq_iff)
    with idle have idle1: "SKIP_FINGERPRINT e = Some ''1'' \<or> filter (existsSync w1) [cssFile e, fontRegular e, fontItalic e] = []"
      by simp
    show "files (fst (fingerprint_assets e w1)) = files w1"
    proof (rule run_cases[of e w1])
      assume "files (fst (fingerprint_assets e w1)) = files w1"
      then show ?thesis .
    next
      fix wc outs
      assume "SKIP_FINGERPRINT e \<noteq> Some ''1''"
        "filter (existsSync w1) [cssFile e, fontRegular e, fontItalic e] \<noteq> []"
      with idle1 show ?thesis by simp
    qed
  next
    fix wc outs
    assume ns: "SKIP_FINGERPRINT e \<noteq> Some ''1''"
      and ne: "filter (existsSync w) [cssFile e, fontRegular e, fontItalic e] \<noteq> []"
      and pc: "produce_copies e (filter (existsSync w) [cssFile e, fontRegular e, fontItalic e]) w Map.empty
                 = (wc, Inr outs)"
      and fa: "files (fst (fingerprint_assets e w)) = files_after_rewrite e outs (files wc)"
    from pc have pc': "produce_copies e found w Map.empty = (wc, Inr outs)" by (simp add: found_def A_def)
    from fa have fw: "files w1 = files_after_rewrite e outs (files wc)" by (simp add: w1_def)
    from produce_copies_total[OF ex, where e=e and out=Map.empty] pc' have
      keep: "\<forall>q c. files w q = Some c \<longrightarrow> files wc q = Some c"
      and new: "\<forall>q c. files wc q = Some c \<longrightarrow>
            files w q = Some c \<or> (\<exists>f\<in>set found. files w f = Some c \<and> q = hashed_path f (digest e c))"
      and outsP: "\<forall>f\<in>set found. \<forall>b. files w f = Some b \<longrightarrow>
            outs f = Some (hashed_path f (digest e b)) \<and> files wc (hashed_path f (digest e b)) \<noteq> None"
      and other: "\<forall>f. f \<notin> set found \<longrightarrow> outs f = Map.empty f"
      by auto
    have asset: "files w1 f = files w f" if f: "f \<in> {cssFile e, fontRegular e, fontItalic e}" for f
    proof -
      have "files w1 f = files wc f"
        unfolding fw by (rule files_after_rewrite_other[OF asset_not_index[OF root f]])
      also have "files wc f = files w f"
      proof (cases "files w f")
        case (Some c)
        with keep show ?thesis by simp
      next
        case None
        have "files wc f = None"
        proof (rule ccontr)
          assume "files wc f \<noteq> None"
          then obtain c where c: "files wc f = Some c" by auto
          with new None obtain g where g: "g \<in> set found" "f = hashed_path g (digest e c)" by fastforce
          from g(1) sub have "g \<in> {cssFile e, fontRegular e, fontItalic e}" by auto
          from hashed_not_asset[OF root this f, of "digest e c"] g(2) show False by simp
        qed
        with None show ?thesis by simp
      qed
      finally show ?thesis .
    qed
    have found1: "filter (existsSync w1) A = found"
      unfolding found_def
      by (rule filter_cong[OF refl]) (simp add: existsSync_def asset Aset)
    have ex1: "\<forall>g\<in>set found. files w1 g \<noteq> None"
    proof
      fix g assume g: "g \<in> set found"
      with sub have "g \<in> {cssFile e, fontRegular e, fontItalic e}" by auto
      from asset[OF this] ex g show "files w1 g \<noteq> None" by simp
    qed
    have copy1: "files w1 (hashed_path f (digest e c)) \<noteq> None" if "f \<in> set found" "files w f = Some c" for f c
    proof -
      from that sub have f: "f \<in> {cssFile e, fontRegular e, fontItalic e}" by auto
      have "files w1 (hashed_path f (digest e c)) = files wc (hashed_path f (digest e c))"
        unfolding fw by (rule files_after_rewrite_other[OF hashed_paths_differ(1)[OF root f f]])
      with outsP that show ?thesis by simp
    qed
    note oc = copies_outputs[OF sha sub ex pc']
    show "files (fst (fingerprint_assets e w1)) = files w1"
    proof (rule run_cases[of e w1])
      assume "SKIP_FINGERPRINT e = Some ''1'' \<or> filter (existsSync w1) [cssFile e, fontRegular e, fontItalic e] = []"
      with ns ne found1 show ?thesis by (simp add: found_def A_def)
    next
      fix wc2 outs2
      assume pc2: "produce_copies e (filter (existsSync w1) [cssFile e, fontRegular e, fontItalic e]) w1 Map.empty
                 = (wc2, Inr outs2)"
        and fa2: "files (fst (fingerprint_assets e w1)) = files_after_rewrite e outs2 (files wc2)"
      from pc2 found1 have pc2': "produce_copies e found w1 Map.empty = (wc2, Inr outs2)"
        by (simp add: A_def)
      from produce_copies_total[OF ex1, where e=e and out=Map.empty] pc2' have
        keep2: "\<forall>q c. files w1 q = Some c \<longrightarrow> files wc2 q = Some c"
        and new2: "\<forall>q c. files wc2 q = Some c \<longrightarrow>
            files w1 q = Some c \<or> (\<exists>f\<in>set found. files w1 f = Some c \<and> q = hashed_path f (digest e c))"
        and outsP2: "\<forall>f\<in>set found. \<forall>b. files w1 f = Some b \<longrightarrow>
            outs2 f = Some (hashed_path f (digest e b)) \<and> files wc2 (hashed_path f (digest e b)) \<noteq> None"
        and other2: "\<forall>f. f \<notin> set found \<longrightarrow> outs2 f = Map.empty f"
        by auto
      have "outs2 f = outs f" for f
      proof (cases "f \<in> set found")
        case True
        with ex obtain b where b: "files w f = Some b" by auto
        from True sub have "f \<in> {cssFile e, fontRegular e, fontItalic e}" by auto
        from asset[OF this] b have b1: "files w1 f = Some b" by simp
        from outsP True b have "outs f = Some (hashed_path f (digest e b))" by blast
        moreover from outsP2 True b1 have "outs2 f = Some (hashed_path f (digest e b))" by blast
        ultimately show ?thesis by simp
      next
        case False
        with other other2 show ?thesis by simp
      qed
      then have o2: "outs2 = outs" by (rule ext)
      have "files wc2 q = files w1 q" for q
      proof (cases "files w1 q")
        case (Some c)
        with keep2 show ?thesis by simp
      next
        case None
        have "files wc2 q = None"
        proof (rule ccontr)
          assume "files wc2 q \<noteq> None"
          then obtain c where c: "files wc2 q = Some c" by auto
          with new2 None obtain f where f: "f \<in> set found" "files w1 f = Some c"
            "q = hashed_path f (digest e c)" by fastforce
          from f(1) sub have "f \<in> {cssFile e, fontRegular e, fontItalic e}" by auto
          from asset[OF this] f(2) have "files w f = Some c" by simp
          from copy1[OF f(1) this] f(3) None show False by simp
        qed
        with None show ?thesis by simp
      qed
      then have f2: "files wc2 = files w1" by (rule ext)
      have "files (fst (fingerprint_assets e w1))
          = files_after_rewrite e outs (files_after_rewrite e outs (files wc))"
        unfolding fa2 o2 f2 fw ..
      also have "\<dots> = files_after_rewrite e outs (files wc)"
        by (rule files_after_rewrite_idempotent[OF root oc wr])
      finally show ?thesis unfolding fw .
    qed
  qed
qed

lemma files_after_rewrite_index:
  "fs (INDEX e) = fs' (INDEX e) \<Longrightarrow>
   files_after_rewrite e outs fs (INDEX e) = files_after_rewrite e outs fs' (INDEX e)"
  by (simp add: files_after_rewrite_def split: option.splits sum.splits write_outcome.splits)

lemma same_inputs_same_html:
  assumes root: "ROOT e \<noteq> []" "hd (ROOT e) = CHR ''/''"
    and agree: "\<And>p. p \<in> {cssFile e, fontRegular e, fontItalic e, INDEX e} \<Longrightarrow> files w' p = files w p"
  shows "files (fst (fingerprint_assets e w')) (INDEX e) = files (fst (fingerprint_assets e w)) (INDEX e)"
proof -
  define A where "A = [cssFile e, fontRegular e, fontItalic e]"
  define found where "found = filter (existsSync w) A"
  have Aset: "set A = {cssFile e, fontRegular e, fontItalic e}" by (simp add: A_def)
  have sub: "set found \<subseteq> {cssFile e, fontRegular e, fontItalic e}"
    unfolding found_def using Aset by auto
  have found': "filter (existsSync w') A = found"
    unfolding found_def
  proof (rule filter_cong[OF refl])
    fix x assume "x \<in> set A"
    then have "x \<in> {cssFile e, fontRegular e, fontItalic e, INDEX e}" using Aset by auto
    from agree[OF this] show "existsSync w' x = existsSync w x" by (simp add: existsSync_def)
  qed
  have ex: "\<forall>g\<in>set found. files w g \<noteq> None" unfolding found_def by (rule found_exist)
  have ex': "\<forall>g\<in>set found. files w' g \<noteq> None"
    unfolding found'[symmetric] by (rule found_exist)
  have index_kept: "files wc (INDEX e) = files v (INDEX e)"
    if pc: "produce_copies e found v Map.empty = (wc, Inr outs)" and exv: "\<forall>g\<in>set found. files v g \<noteq> None"
    for v wc outs
  proof -
    from produce_copies_total[OF exv, where e=e and out=Map.empty] pc have
      keep: "\<forall>q c. files v q = Some c \<longrightarrow> files wc q = Some c"
      and new: "\<forall>q c. files wc q = Some c \<longrightarrow>
            files v q = Some c \<or> (\<exists>f\<in>set found. files v f = Some c \<and> q = hashed_path f (digest e c))"
      by auto
    show ?thesis
    proof (cases "files v (INDEX e)")
      case (Some c)
      with keep show ?thesis by simp
    next
      case None
      have "files wc (INDEX e) = None"
      proof (rule ccontr)
        assume "files wc (INDEX e) \<noteq> None"
        then obtain c where c: "files wc (INDEX e) = Some c" by auto
        with new None obtain g where g: "g \<in> set found" "INDEX e = hashed_path g (digest e c)"
          by fastforce
        from g(1) sub have "g \<in> {cssFile e, fontRegular e, fontItalic e}" by auto
        from hashed_paths_differ(1)[OF root this this, of "digest e c"] g(2) show False by simp
      qed
      with None show ?thesis by simp
    qed
  qed
  show ?thesis
  proof (rule run_cases[of e w])
    assume idle: "SKIP_FINGERPRINT e = Some ''1'' \<or> filter (existsSync w) [cssFile e, fontRegular e, fontItalic e] = []"
      and same: "files (fst (fingerprint_assets e w)) = files w"
    show ?thesis
    proof (rule run_cases[of e w'])
      assume "files (fst (fingerprint_assets e w')) = files w'"
      with same agree[of "INDEX e"] show ?thesis by simp
    next
      fix wc outs
      assume "SKIP_FINGERPRINT e \<noteq> Some ''1''"
        "filter (existsSync w') [cssFile e, fontRegular e, fontItalic e] \<noteq> []"
      with idle found' show ?thesis by (simp add: found_def A_def)
    qed
  next
    fix wc outs
    assume ns: "SKIP_FINGERPRINT e \<noteq> Some ''1''"
      and ne: "filter (existsSync w) [cssFile e, fontRegular e, fontItalic e] \<noteq> []"
      and pc: "produce_copies e (filter (existsSync w) [cssFile e, fontRegular e, fontItalic e]) w Map.empty
                 = (wc, Inr outs)"
      and fa: "files (fst (fingerprint_assets e w)) = files_after_rewrite e outs (files wc)"
    from pc have pc0: "produce_copies e found w Map.empty = (wc, Inr outs)" by (simp add: found_def A_def)
    show ?thesis
    proof (rule run_cases[of e w'])
      assume "SKIP_FINGERPRINT e = Some ''1'' \<or> filter (existsSync w') [cssFile e, fontRegular e, fontItalic e] = []"
      with ns ne found' show ?thesis by (simp add: found_def A_def)
    next
      fix wc' outs'
      assume pc': "produce_copies e (filter (existsSync w') [cssFile e, fontRegular e, fontItalic e]) w' Map.empty
                 = (wc', Inr outs')"
        and fa': "files (fst (fingerprint_assets e w')) = files_after_rewrite e outs' (files wc')"
      from pc' found' have pc1: "produce_copies e found w' Map.empty = (wc', Inr outs')"
        by (simp add: A_def)
      from produce_copies_total[OF ex, where e=e and out=Map.empty] pc0 have
        outsP: "\<forall>f\<in>set found. \<forall>b. files w f = Some b \<longrightarrow>
            outs f = Some (hashed_path f (digest e b)) \<and> files wc (hashed_path f (digest e b)) \<noteq> None"
        and other: "\<forall>f. f \<notin> set found \<longrightarrow> outs f = Map.empty f"
        by auto
      from produce_copies_total[OF ex', where e=e and out=Map.empty] pc1 have
        outsP': "\<forall>f\<in>set found. \<forall>b. files w' f = Some b \<longrightarrow>
            outs' f = Some (hashed_path f (digest e b)) \<and> files wc' (hashed_path f (digest e b)) \<noteq> None"
        and other': "\<forall>f. f \<notin> set found \<longrightarrow> outs' f = Map.empty f"
        by auto
      have "outs' f = outs f" for f
      proof (cases "f \<in> set found")
        case True
        with ex obtain b where b: "files w f = Some b" by auto
        from True sub have "f \<in> {cssFile e, fontRegular e, fontItalic e, INDEX e}" by auto
        from agree[OF this] b have b1: "files w' f = Some b" by simp
        from outsP True b have "outs f = Some (hashed_path f (digest e b))" by blast
        moreover from outsP' True b1 have "outs' f = Some (hashed_path f (digest e b))" by blast
        ultimately show ?thesis by simp
      next
        case False
        with other other' show ?thesis by simp
      qed
      then have o: "outs' = outs" by (rule ext)
      have "files wc' (INDEX e) = files wc (INDEX e)"
        using index_kept[OF pc0 ex] index_kept[OF pc1 ex'] agree[of "INDEX e"] by simp
      from files_after_rewrite_index[where fs="files wc'" and fs'="files wc" and e=e and outs=outs, OF this]
      show ?thesis unfolding fa fa' o .
    qed
  qed
qed

text \<open>
  C3. Let the working directory be an absolute path, let the digest function return 64
  lowercase hexadecimal digits, as SHA-256 does, and let the write of \<^verbatim>\<open>index.html\<close> not
  fail after it has opened the file. Then (1) the rewriting is idempotent on texts: with the
  same \<^verbatim>\<open>outputs\<close>, its result is rewritten to itself; (2) a second run of the step on
  the files the first run left changes no file; (3) the document a run leaves depends only
  on the bytes of the three assets and of \<^verbatim>\<open>index.html\<close>: two runs from worlds that agree
  on these four files leave the same \<^verbatim>\<open>index.html\<close>.
\<close>

theorem rewrite_idempotent_deterministic:
  assumes "ROOT e \<noteq> []" "hd (ROOT e) = CHR ''/''"
    and "\<forall>buf. list_all is_hex_lower (sha256_hex e buf) \<and> length (sha256_hex e buf) = 64"
    and "\<forall>k. index_write e \<noteq> FailsAfterBytes k"
  shows "(\<forall>outs t t'.
            (\<forall>f\<in>{cssFile e, fontRegular e, fontItalic e}.
                outs f = None \<or> (\<exists>b. outs f = Some (hashed_path f (digest e b)))) \<longrightarrow>
            rewrite_references e outs t = Inr t' \<longrightarrow> rewrite_references e outs t' = Inr t')
       \<and> files (fst (fingerprint_assets e (fst (fingerprint_assets e w))))
            = files (fst (fingerprint_assets e w))
       \<and> (\<forall>w'. (\<forall>p\<in>{cssFile e, fontRegular e, fontItalic e, INDEX e}. files w' p = files w p) \<longrightarrow>
             files (fst (fingerprint_assets e w')) (INDEX e)
               = files (fst (fingerprint_assets e w)) (INDEX e))"
proof (intro conjI allI impI)
  fix outs t t'
  assume o: "\<forall>f\<in>{cssFile e, fontRegular e, fontItalic e}.
                outs f = None \<or> (\<exists>b. outs f = Some (hashed_path f (digest e b)))"
    and r: "rewrite_references e outs t = Inr t'"
  have "outs f = None \<or> (\<exists>h. outs f = Some (hashed_path f h) \<and> list_all is_hex_lower h
                               \<and> 8 \<le> length h \<and> length h \<le> 12)"
    if "f \<in> {cssFile e, fontRegular e, fontItalic e}" for f
  proof -
    from bspec[OF o that] show ?thesis
    proof
      assume "outs f = None"
      then show ?thesis ..
    next
      assume "\<exists>b. outs f = Some (hashed_path f (digest e b))"
      then obtain b where "outs f = Some (hashed_path f (digest e b))" ..
      with digest_hex[OF assms(3), of b] show ?thesis by auto
    qed
  qed
  from rewrite_references_idempotent[OF assms(1,2) this r]
  show "rewrite_references e outs t' = Inr t'" .
next
  from assms(4) have "\<And>k. index_write e \<noteq> FailsAfterBytes k" by simp
  from second_run[OF assms(1,2,3) this]
  show "files (fst (fingerprint_assets e (fst (fingerprint_assets e w))))
            = files (fst (fingerprint_assets e w))" .
next
  fix w' :: world
  assume a: "\<forall>p\<in>{cssFile e, fontRegular e, fontItalic e, INDEX e}. files w' p = files w p"
  show "files (fst (fingerprint_assets e w')) (INDEX e) = files (fst (fingerprint_assets e w)) (INDEX e)"
  proof (rule same_inputs_same_html[OF assms(1,2)])
    fix p assume "p \<in> {cssFile e, fontRegular e, fontItalic e, INDEX e}"
    with a show "files w' p = files w p" by (rule bspec)
  qed
qed

theorem rewrite_idempotent_deterministic_witness:
  "ROOT (site_env WriteOk) \<noteq> [] \<and> hd (ROOT (site_env WriteOk)) = CHR ''/''
   \<and> (\<forall>buf. list_all is_hex_lower (sha256_hex (site_env WriteOk) buf)
             \<and> length (sha256_hex (site_env WriteOk) buf) = 64)
   \<and> (\<forall>k. index_write (site_env WriteOk) \<noteq> FailsAfterBytes k)
   \<and> files (fst (fingerprint_assets (site_env WriteOk)
        (site_world [(''/site/assets/tailwind.css'', ''X''),
                     (''/site/index.html'', ''<link href=/assets/tailwind.css>'')])))
        ''/site/index.html'' = Some ''<link href=/assets/tailwind.aaaaaaaaaa.css>''
   \<and> files (fst (fingerprint_assets (site_env WriteOk)
        (fst (fingerprint_assets (site_env WriteOk)
          (site_world [(''/site/assets/tailwind.css'', ''X''),
                       (''/site/index.html'', ''<link href=/assets/tailwind.css>'')])))))
        ''/site/index.html'' = Some ''<link href=/assets/tailwind.aaaaaaaaaa.css>''"
proof -
  let ?e = "site_env WriteOk"
  let ?w = "site_world [(''/site/assets/tailwind.css'', ''X''),
                        (''/site/index.html'', ''<link href=/assets/tailwind.css>'')]"
  have r: "ROOT ?e \<noteq> []" "hd (ROOT ?e) = CHR ''/''" by (simp_all add: site_env_def)
  have s: "\<forall>buf. list_all is_hex_lower (sha256_hex ?e buf) \<and> length (sha256_hex ?e buf) = 64"
    by (simp add: site_env_def list_all_iff is_hex_lower_def)
  have k: "\<forall>k. index_write ?e \<noteq> FailsAfterBytes k" by (simp add: site_env_def)
  have b: "files (fst (main_body ?e ?w)) ''/site/index.html'' = Some ''<link href=/assets/tailwind.aaaaaaaaaa.css>''"
    by (simp add: main_body_def Let_def eval_paths eval_fs eval_rewrite replicate_numeral)
  then have one: "files (fst (fingerprint_assets ?e ?w)) ''/site/index.html''
      = Some ''<link href=/assets/tailwind.aaaaaaaaaa.css>''"
    by (simp add: fingerprint_assets_world main_files)
  from rewrite_idempotent_deterministic[OF r s k, of ?w]
  have "files (fst (fingerprint_assets ?e (fst (fingerprint_assets ?e ?w))))
            = files (fst (fingerprint_assets ?e ?w))" by blast
  with one have "files (fst (fingerprint_assets ?e (fst (fingerprint_assets ?e ?w)))) ''/site/index.html''
      = Some ''<link href=/assets/tailwind.aaaaaaaaaa.css>''" by simp
  with r s k one show ?thesis by blast
qed

end
